theory Spec2Isabelle
  imports Main "HOL-Library.Word" "HOL-Library.Multiset"
begin

section \<open>Data model of \<open>read.go\<close>\<close>

text \<open>
  Package \<open>nbio\<close> wraps a blocking \<open>io.ReadCloser\<close>. A goroutine started by
  \<open>NewReader\<close> (the producer) reads the source into one of three buffers and hands the
  filled slice to the caller's thread (the consumer, running \<open>Read\<close> and \<open>Close\<close>) over
  channel \<open>next\<close>; consumed buffers travel back over channel \<open>pool\<close>; the first source
  error is parked in channel \<open>err\<close>.

  The two threads are embedded as an interleaving semantics: the state holds the struct
  fields, the channels, the three arrays, and for each thread a program counter with its
  local variables. One step executes one statement that touches shared state (a channel
  operation, a timer operation, a memory access) together with the thread-local
  statements that follow it: the fields \<open>r.buf\<close> and \<open>r.i\<close> are touched by the user's
  thread only. What the environment decides (the result of a call of the source, the
  moment the timer fires, the calls of the user, the case a \<open>select\<close> takes when several
  are ready) arrives as an event. Real time is abstracted: an armed timer may fire at any
  moment, so the configured timeout is no part of the state. The user calls \<open>Read\<close> and
  \<open>Close\<close> from one thread, one call at a time.

  A channel is the list of the values queued in it; a send appends when the list is
  shorter than the capacity and blocks otherwise; a receive takes the head, blocks on an
  empty open channel and yields the zero value on an empty closed one. A blocked
  statement is a step that is not enabled (\<open>None\<close>). A panic is a program counter of its
  own.
\<close>

type_synonym byte = "8 word"

text \<open>Go \<open>error\<close> values; \<open>nil\<close> is \<open>None\<close> of \<open>error option\<close>. \<open>ErrNoData\<close> is line 9.\<close>

datatype error = ErrNoData | SrcError string

text \<open>The arrays \<open>buf1\<close>, \<open>buf2\<close>, \<open>buf3\<close> of the struct (line 26), each \<open>[2048]byte\<close>.\<close>

datatype bufid = Buf1 | Buf2 | Buf3

definition bufcap :: nat where
  "bufcap = 2048"

text \<open>
  A \<open>[]byte\<close> is \<open>nil\<close> or a window on one of the arrays. Every slice the code makes
  starts at offset 0 (\<open>buf[:0]\<close>, \<open>buf[:]\<close>, \<open>buf[:n]\<close>, \<open>buf[:cap(buf)]\<close>), so a slice is
  the array and the length; its capacity is that of the array.
\<close>

datatype slice = NilSlice | Slice bufid nat

fun len :: "slice \<Rightarrow> nat" where
  "len NilSlice = 0"
| "len (Slice b n) = n"

fun full :: "slice \<Rightarrow> slice" where
  "full NilSlice = NilSlice"
| "full (Slice b n) = Slice b bufcap"

fun reslice :: "slice \<Rightarrow> nat \<Rightarrow> slice" where
  "reslice NilSlice n = NilSlice"
| "reslice (Slice b m) n = Slice b n"

fun bytes_of :: "(bufid \<Rightarrow> byte list) \<Rightarrow> slice \<Rightarrow> byte list" where
  "bytes_of m NilSlice = []"
| "bytes_of m (Slice b n) = take n (m b)"

text \<open>
  The source stores the \<open>n\<close> bytes it returns at the front of the slice it was given.
\<close>

fun write_buf :: "slice \<Rightarrow> byte list \<Rightarrow> (bufid \<Rightarrow> byte list) \<Rightarrow> (bufid \<Rightarrow> byte list)" where
  "write_buf NilSlice d m = m"
| "write_buf (Slice b n) d m = m(b := d @ drop (length d) (m b))"

text \<open>Program counters. The numbers are lines of \<open>read.go\<close>.\<close>

datatype ppc =
    P_read    \<comment> \<open>54: inside \<open>r.r.Read(buf)\<close>\<close>
  | P_send    \<comment> \<open>56: \<open>r.next <- buf[:n]\<close>\<close>
  | P_recv    \<comment> \<open>57-58: \<open>buf = <-r.pool\<close>, \<open>buf = buf[:cap(buf)]\<close>\<close>
  | P_err     \<comment> \<open>61: \<open>r.err <- err\<close>\<close>
  | P_close   \<comment> \<open>62: \<open>close(r.next)\<close>\<close>
  | P_done    \<comment> \<open>63: returned\<close>
  | P_panic   \<comment> \<open>send on, or close of, a closed channel\<close>

datatype cpc =
    C_idle      \<comment> \<open>no call in progress\<close>
  | C_wait      \<comment> \<open>92: the \<open>select\<close> of the wait loop\<close>
  | C_recycle1  \<comment> \<open>97-99: \<open>r.pool <- r.buf\<close>, \<open>r.buf = buf\<close>, \<open>r.i = 0\<close>\<close>
  | C_stop      \<comment> \<open>103: \<open>r.timer.Stop()\<close>\<close>
  | C_drain     \<comment> \<open>104: \<open><-r.timer.C\<close>\<close>
  | C_errrecv   \<comment> \<open>109: \<open>err := <-r.err\<close>\<close>
  | C_errsend   \<comment> \<open>110-111: \<open>r.err <- err\<close>, \<open>return 0, err\<close>\<close>
  | C_copy      \<comment> \<open>116-124: \<open>copy\<close>, the test \<open>n >= len(p)\<close>, \<open>p = p[did:]\<close>\<close>
  | C_poll      \<comment> \<open>126-131: the \<open>select\<close> with \<open>default\<close>\<close>
  | C_recycle2  \<comment> \<open>132-139: \<open>r.pool <- r.buf\<close>, \<open>r.buf = buf\<close>, \<open>r.i = 0\<close>, the \<open>nil\<close> test\<close>
  | K_range     \<comment> \<open>75: \<open>range r.next\<close> in \<open>Close\<close>\<close>
  | K_push      \<comment> \<open>76: \<open>r.pool <- buf\<close> in \<open>Close\<close>\<close>
  | C_panic     \<comment> \<open>116: \<open>buf[r.i:]\<close> with \<open>r.i > len(buf)\<close>\<close>

text \<open>What a finished call handed back to the user.\<close>

datatype ret =
    Read_ret nat nat "byte list" "error option"
      \<comment> \<open>\<open>len(p)\<close> at the call, the count, the bytes stored in \<open>p\<close>, the error\<close>
  | Close_ret "error option"

record state =
  mem :: "bufid \<Rightarrow> byte list"   \<comment> \<open>contents of \<open>buf1\<close>, \<open>buf2\<close>, \<open>buf3\<close>\<close>
  r_buf :: slice                 \<comment> \<open>\<open>r.buf\<close>\<close>
  r_i :: nat                     \<comment> \<open>\<open>r.i\<close>\<close>
  timer_set :: bool              \<comment> \<open>\<open>r.timer != nil\<close>\<close>
  timer_armed :: bool            \<comment> \<open>the timer is running\<close>
  timer_c :: bool                \<comment> \<open>a value waits in \<open>r.timer.C\<close>\<close>
  next_q :: "slice list"         \<comment> \<open>\<open>r.next\<close>, capacity 1\<close>
  next_closed :: bool
  pool_q :: "slice list"         \<comment> \<open>\<open>r.pool\<close>, capacity 2\<close>
  err_q :: "error option list"   \<comment> \<open>\<open>r.err\<close>, capacity 1\<close>
  p_pc :: ppc
  p_buf :: slice                 \<comment> \<open>\<open>buf\<close> of the goroutine\<close>
  p_n :: nat                     \<comment> \<open>\<open>n\<close> of the goroutine\<close>
  p_err :: "error option"        \<comment> \<open>\<open>err\<close> of the goroutine\<close>
  c_pc :: cpc
  c_buf :: slice                 \<comment> \<open>\<open>buf\<close> of \<open>Read\<close>\<close>
  c_p :: nat                     \<comment> \<open>\<open>len(p)\<close> of \<open>Read\<close>\<close>
  c_n :: nat                     \<comment> \<open>\<open>n\<close> of \<open>Read\<close>\<close>
  c_err :: "error option"        \<comment> \<open>\<open>err\<close> of \<open>Read\<close>\<close>
  c_out :: "byte list"           \<comment> \<open>what the running \<open>Read\<close> has stored in the caller's \<open>p\<close>\<close>
  k_buf :: slice                 \<comment> \<open>\<open>buf\<close> of \<open>Close\<close>\<close>
  k_err :: "error option"        \<comment> \<open>\<open>err\<close> of \<open>Close\<close>\<close>
  c_len0 :: nat                  \<comment> \<open>history: \<open>len(p)\<close> when \<open>Read\<close> was called\<close>
  c_adopted :: nat               \<comment> \<open>history: receives done by the wait loop of the running \<open>Read\<close>\<close>
  src_bytes :: "byte list"       \<comment> \<open>history: all bytes the source has returned\<close>
  src_closed :: bool             \<comment> \<open>history: \<open>r.r.Close()\<close> has been called\<close>
  hist :: "ret list"             \<comment> \<open>history: the calls that have returned, oldest first\<close>

text \<open>
  \<open>NewReader\<close>, lines 39-51: \<open>r.buf = r.buf1[:0]\<close>, \<open>r.pool <- r.buf3[:]\<close>, and the
  goroutine starts with \<open>buf := r.buf2[:]\<close> in front of its first call of the source.
\<close>

definition NewReader :: state where
  "NewReader = \<lparr>
     mem = (\<lambda>b. replicate bufcap 0), r_buf = Slice Buf1 0, r_i = 0,
     timer_set = False, timer_armed = False, timer_c = False,
     next_q = [], next_closed = False, pool_q = [Slice Buf3 bufcap], err_q = [],
     p_pc = P_read, p_buf = Slice Buf2 bufcap, p_n = 0, p_err = None,
     c_pc = C_idle, c_buf = NilSlice, c_p = 0, c_n = 0, c_err = None, c_out = [],
     k_buf = NilSlice, k_err = None,
     c_len0 = 0, c_adopted = 0, src_bytes = [], src_closed = False, hist = [] \<rparr>"

section \<open>The producer goroutine, lines 50-66\<close>

text \<open>
  Line 54 returns when the source does: \<open>d\<close> are the bytes it stored (\<open>n = length d\<close>,
  at most \<open>len(buf)\<close> by the contract of \<open>io.Reader\<close>) and \<open>e\<close> its error. The tests of
  lines 55 and 60 choose what comes next.
\<close>

definition src_read :: "byte list \<Rightarrow> error option \<Rightarrow> state \<Rightarrow> state option" where
  "src_read d e s =
     (if p_pc s = P_read \<and> length d \<le> len (p_buf s) then
        Some (s\<lparr> mem := write_buf (p_buf s) d (mem s),
                 p_n := length d, p_err := e,
                 src_bytes := src_bytes s @ d,
                 p_pc := (if length d \<noteq> 0 then P_send
                          else if e \<noteq> None then P_err else P_read) \<rparr>)
      else None)"

definition prod_step :: "state \<Rightarrow> state option" where
  "prod_step s =
     (case p_pc s of
        P_read \<Rightarrow> None
      | P_send \<Rightarrow>
          if next_closed s then Some (s\<lparr> p_pc := P_panic \<rparr>)
          else if length (next_q s) < 1 then
            Some (s\<lparr> next_q := next_q s @ [reslice (p_buf s) (p_n s)], p_pc := P_recv \<rparr>)
          else None
      | P_recv \<Rightarrow>
          (case pool_q s of
             [] \<Rightarrow> None
           | b # q \<Rightarrow>
               Some (s\<lparr> pool_q := q, p_buf := full b,
                        p_pc := (if p_err s \<noteq> None then P_err else P_read) \<rparr>))
      | P_err \<Rightarrow>
          if length (err_q s) < 1 then
            Some (s\<lparr> err_q := err_q s @ [p_err s], p_pc := P_close \<rparr>)
          else None
      | P_close \<Rightarrow>
          if next_closed s then Some (s\<lparr> p_pc := P_panic \<rparr>)
          else Some (s\<lparr> next_closed := True, p_pc := P_done \<rparr>)
      | P_done \<Rightarrow> None
      | P_panic \<Rightarrow> None)"

section \<open>The timer\<close>

text \<open>
  A \<open>time.Timer\<close> with its one-slot channel \<open>C\<close>: \<open>NewTimer\<close> and \<open>Reset\<close> start it; when
  it fires it stops running and leaves a value in \<open>C\<close>; \<open>Stop\<close> returns \<open>true\<close> exactly when
  it stops a running timer.
\<close>

definition timer_fire :: "state \<Rightarrow> state option" where
  "timer_fire s =
     (if timer_armed s then Some (s\<lparr> timer_armed := False, timer_c := True \<rparr>) else None)"

section \<open>\<open>Read\<close>, lines 82-142\<close>

text \<open>Line 91, the test of the wait loop; line 107, the test after it.\<close>

definition wait_or_stop :: "state \<Rightarrow> cpc" where
  "wait_or_stop s = (if c_buf s \<noteq> NilSlice \<and> r_i s \<ge> len (c_buf s) then C_wait else C_stop)"

definition after_wait :: "state \<Rightarrow> cpc" where
  "after_wait s = (if c_buf s = NilSlice then C_errrecv else C_copy)"

text \<open>A \<open>return\<close> of \<open>Read\<close>: the call is recorded and its frame is gone.\<close>

definition ret_read :: "nat \<Rightarrow> error option \<Rightarrow> state \<Rightarrow> state" where
  "ret_read n e s =
     s\<lparr> c_pc := C_idle, c_out := [],
        hist := hist s @ [Read_ret (c_len0 s) n (c_out s) e] \<rparr>"

text \<open>
  The call, lines 83-91: the timer is made or reset, \<open>buf := r.buf\<close>, and the wait loop
  tests its condition for the first time. (\<open>n\<close> of line 114 is zeroed here already.)
\<close>

definition call_read :: "nat \<Rightarrow> state \<Rightarrow> state option" where
  "call_read l s =
     (if c_pc s = C_idle then
        (let s1 = s\<lparr> timer_set := True, timer_armed := True,
                     timer_c := (if timer_set s then timer_c s else False),
                     c_buf := r_buf s, c_p := l, c_n := 0, c_out := [],
                     c_len0 := l, c_adopted := 0 \<rparr>
         in Some (s1\<lparr> c_pc := wait_or_stop s1 \<rparr>))
      else None)"

text \<open>Line 93: the timer case of the \<open>select\<close>.\<close>

definition sel_timer :: "state \<Rightarrow> state option" where
  "sel_timer s =
     (if c_pc s = C_wait \<and> timer_c s then
        Some (ret_read 0 (Some ErrNoData) (s\<lparr> timer_c := False \<rparr>))
      else None)"

text \<open>
  Line 96: the receive case. A receive takes the oldest queued value; on an empty closed
  channel it yields \<open>nil\<close> at once; on an empty open channel it is not ready.
\<close>

definition sel_next :: "state \<Rightarrow> state option" where
  "sel_next s =
     (if c_pc s = C_wait then
        (case next_q s of
           b # q \<Rightarrow> Some (s\<lparr> next_q := q, c_buf := b,
                             c_adopted := Suc (c_adopted s), c_pc := C_recycle1 \<rparr>)
         | [] \<Rightarrow>
             if next_closed s then
               Some (s\<lparr> c_buf := NilSlice,
                        c_adopted := Suc (c_adopted s), c_pc := C_recycle1 \<rparr>)
             else None)
      else None)"

definition read_step :: "state \<Rightarrow> state option" where
  "read_step s =
     (case c_pc s of
        C_recycle1 \<Rightarrow>
          if length (pool_q s) < 2 then
            (let s1 = s\<lparr> pool_q := pool_q s @ [r_buf s], r_buf := c_buf s, r_i := 0 \<rparr>
             in Some (s1\<lparr> c_pc := wait_or_stop s1 \<rparr>))
          else None
      | C_stop \<Rightarrow>
          if timer_armed s then Some (s\<lparr> timer_armed := False, c_pc := after_wait s \<rparr>)
          else Some (s\<lparr> c_pc := C_drain \<rparr>)
      | C_drain \<Rightarrow>
          if timer_c s then Some (s\<lparr> timer_c := False, c_pc := after_wait s \<rparr>)
          else None
      | C_errrecv \<Rightarrow>
          (case err_q s of
             [] \<Rightarrow> None
           | e # q \<Rightarrow> Some (s\<lparr> err_q := q, c_err := e, c_pc := C_errsend \<rparr>))
      | C_errsend \<Rightarrow>
          if length (err_q s) < 1 then
            Some (ret_read 0 (c_err s) (s\<lparr> err_q := err_q s @ [c_err s] \<rparr>))
          else None
      | C_copy \<Rightarrow>
          if r_i s > len (c_buf s) then Some (s\<lparr> c_pc := C_panic \<rparr>)
          else
            (let did = min (c_p s) (len (c_buf s) - r_i s);
                 s1 = s\<lparr> c_out := c_out s @ take did (drop (r_i s) (bytes_of (mem s) (c_buf s))),
                          r_i := r_i s + did, c_n := c_n s + did \<rparr>
             in if c_n s1 \<ge> c_p s then Some (ret_read (c_n s1) None s1)
                else Some (s1\<lparr> c_p := c_p s - did, c_pc := C_poll \<rparr>))
      | C_poll \<Rightarrow>
          (case next_q s of
             b # q \<Rightarrow> Some (s\<lparr> next_q := q, c_buf := b, c_pc := C_recycle2 \<rparr>)
           | [] \<Rightarrow>
               if next_closed s then Some (s\<lparr> c_buf := NilSlice, c_pc := C_recycle2 \<rparr>)
               else Some (ret_read (c_n s) None s))
      | C_recycle2 \<Rightarrow>
          if length (pool_q s) < 2 then
            (let s1 = s\<lparr> pool_q := pool_q s @ [r_buf s], r_buf := c_buf s, r_i := 0 \<rparr>
             in if c_buf s = NilSlice then Some (ret_read (c_n s) None s1)
                else Some (s1\<lparr> c_pc := C_copy \<rparr>))
          else None
      | _ \<Rightarrow> None)"

section \<open>\<open>Close\<close>, lines 71-80\<close>

text \<open>Line 72: the source is closed and its error kept; then the loop of line 75 starts.\<close>

definition call_close :: "error option \<Rightarrow> state \<Rightarrow> state option" where
  "call_close e s =
     (if c_pc s = C_idle then
        Some (s\<lparr> k_err := e, src_closed := True, c_pc := K_range \<rparr>)
      else None)"

definition close_step :: "state \<Rightarrow> state option" where
  "close_step s =
     (case c_pc s of
        K_range \<Rightarrow>
          (case next_q s of
             b # q \<Rightarrow> Some (s\<lparr> next_q := q, k_buf := b, c_pc := K_push \<rparr>)
           | [] \<Rightarrow>
               if next_closed s then
                 Some (s\<lparr> c_pc := C_idle, hist := hist s @ [Close_ret (k_err s)] \<rparr>)
               else None)
      | K_push \<Rightarrow>
          if length (pool_q s) < 2 then
            Some (s\<lparr> pool_q := pool_q s @ [k_buf s], c_pc := K_range \<rparr>)
          else None
      | _ \<Rightarrow> None)"

section \<open>The system\<close>

datatype event =
    SrcRead "byte list" "error option"  \<comment> \<open>the source's \<open>Read\<close> returns\<close>
  | Producer                            \<comment> \<open>the goroutine executes its next statement\<close>
  | TimerFire
  | CallRead nat                        \<comment> \<open>the user calls \<open>Read(p)\<close> with \<open>len(p)\<close>\<close>
  | CallClose "error option"            \<comment> \<open>the user calls \<open>Close\<close>; the source's \<open>Close\<close> returns this\<close>
  | SelTimer                            \<comment> \<open>the \<open>select\<close> of line 92 takes the timer\<close>
  | SelNext                             \<comment> \<open>the \<open>select\<close> of line 92 takes \<open>r.next\<close>\<close>
  | Consumer                            \<comment> \<open>the user's thread executes its next statement\<close>

fun step :: "event \<Rightarrow> state \<Rightarrow> state option" where
  "step (SrcRead d e) s = src_read d e s"
| "step Producer s = prod_step s"
| "step TimerFire s = timer_fire s"
| "step (CallRead l) s = call_read l s"
| "step (CallClose e) s = call_close e s"
| "step SelTimer s = sel_timer s"
| "step SelNext s = sel_next s"
| "step Consumer s = (if c_pc s = K_range \<or> c_pc s = K_push then close_step s else read_step s)"

text \<open>A schedule is a list of events; an event that is not enabled ends the run.\<close>

fun run :: "event list \<Rightarrow> state \<Rightarrow> state option" where
  "run [] s = Some s"
| "run (e # es) s = (case step e s of None \<Rightarrow> None | Some s' \<Rightarrow> run es s')"

section \<open>Who holds which buffer\<close>

text \<open>
  The array a slice is a window on; \<open>nil\<close> is a window on none.
\<close>

fun owner_of :: "slice \<Rightarrow> bufid multiset" where
  "owner_of NilSlice = {#}"
| "owner_of (Slice b n) = {#b#}"

fun held :: "slice list \<Rightarrow> bufid multiset" where
  "held [] = {#}"
| "held (x # xs) = owner_of x + held xs"

text \<open>
  The four roles. The goroutine holds its \<open>buf\<close> except between the send of line 56 and
  the receive of line 57. The user's thread holds \<open>r.buf\<close>, and for the moment between
  a receive from \<open>r.next\<close> and the send to \<open>r.pool\<close> that follows it also the slice it
  has just received (the local \<open>buf\<close> of \<open>Read\<close> or of \<open>Close\<close>).
\<close>

definition filling :: "state \<Rightarrow> slice list" where
  "filling s = (if p_pc s = P_recv then [] else [p_buf s])"

definition in_transit :: "state \<Rightarrow> slice list" where
  "in_transit s = next_q s"

definition at_consumer :: "state \<Rightarrow> slice list" where
  "at_consumer s =
     r_buf s # (if c_pc s = C_recycle1 \<or> c_pc s = C_recycle2 then [c_buf s]
                else if c_pc s = K_push then [k_buf s] else [])"

definition idle_pool :: "state \<Rightarrow> slice list" where
  "idle_pool s = pool_q s"

definition owned :: "state \<Rightarrow> bufid multiset" where
  "owned s = held (filling s) + held (in_transit s) + held (at_consumer s) + held (idle_pool s)"

section \<open>Invariants\<close>

text \<open>The goroutine's control state, and the error channel.\<close>

definition inv_prod :: "state \<Rightarrow> bool" where
  "inv_prod s \<longleftrightarrow>
     (p_pc s = P_send \<longrightarrow> 0 < p_n s \<and> p_n s \<le> len (p_buf s)) \<and>
     (p_pc s = P_err \<or> p_pc s = P_close \<or> p_pc s = P_done \<longrightarrow> p_err s \<noteq> None) \<and>
     (next_closed s \<longleftrightarrow> p_pc s = P_done) \<and>
     p_pc s \<noteq> P_panic \<and>
     (p_pc s \<noteq> P_close \<and> p_pc s \<noteq> P_done \<longrightarrow> err_q s = [] \<and> c_pc s \<noteq> C_errsend) \<and>
     (p_pc s = P_close \<or> p_pc s = P_done \<longrightarrow>
        (c_pc s = C_errsend \<longrightarrow> err_q s = [] \<and> c_err s = p_err s) \<and>
        (c_pc s \<noteq> C_errsend \<longrightarrow> err_q s = [p_err s]))"

text \<open>The timer: running or fired while \<open>Read\<close> may wait, at rest otherwise.\<close>

definition inv_timer :: "state \<Rightarrow> bool" where
  "inv_timer s \<longleftrightarrow>
     (c_pc s = C_wait \<or> c_pc s = C_recycle1 \<or> c_pc s = C_stop \<longrightarrow> timer_armed s \<noteq> timer_c s) \<and>
     (c_pc s = C_drain \<longrightarrow> \<not> timer_armed s \<and> timer_c s) \<and>
     (c_pc s \<noteq> C_wait \<and> c_pc s \<noteq> C_recycle1 \<and> c_pc s \<noteq> C_stop \<and> c_pc s \<noteq> C_drain \<longrightarrow>
        \<not> timer_armed s \<and> \<not> timer_c s)"

text \<open>The user's thread, the queues and the arrays.\<close>

definition inv_cons :: "state \<Rightarrow> bool" where
  "inv_cons s \<longleftrightarrow>
     r_i s \<le> len (r_buf s) \<and> len (r_buf s) \<le> bufcap \<and>
     (r_buf s = NilSlice \<longrightarrow> next_closed s \<and> next_q s = []) \<and>
     c_pc s \<noteq> C_panic \<and>
     (\<forall>b \<in> set (next_q s). 0 < len b \<and> len b \<le> bufcap) \<and>
     (\<forall>b \<in> set (pool_q s). b \<noteq> NilSlice) \<and>
     length (next_q s) \<le> 1 \<and> length (pool_q s) \<le> 2 \<and>
     p_buf s \<noteq> NilSlice \<and> len (p_buf s) = bufcap \<and>
     (\<forall>b. length (mem s b) = bufcap) \<and>
     (c_pc s = C_wait \<or> c_pc s = C_stop \<or> c_pc s = C_drain \<or> c_pc s = C_copy \<or> c_pc s = C_poll
        \<longrightarrow> c_buf s = r_buf s) \<and>
     (c_pc s = C_wait \<or> c_pc s = C_recycle1 \<or> c_pc s = C_poll \<or> c_pc s = C_recycle2
        \<longrightarrow> r_buf s \<noteq> NilSlice \<and> r_i s = len (r_buf s)) \<and>
     (c_pc s = C_recycle1 \<or> c_pc s = C_recycle2
        \<longrightarrow> (c_buf s = NilSlice \<longrightarrow> next_closed s \<and> next_q s = []) \<and>
            (c_buf s \<noteq> NilSlice \<longrightarrow> 0 < len (c_buf s)) \<and> len (c_buf s) \<le> bufcap) \<and>
     (c_pc s = C_stop \<or> c_pc s = C_drain \<longrightarrow> r_buf s = NilSlice \<or> r_i s < len (r_buf s)) \<and>
     (c_pc s = C_errrecv \<or> c_pc s = C_errsend \<longrightarrow> r_buf s = NilSlice) \<and>
     (c_pc s = C_copy \<longrightarrow> r_i s < len (r_buf s) \<and> (c_n s = 0 \<or> 0 < c_p s)) \<and>
     (c_pc s = C_poll \<or> c_pc s = C_recycle2 \<longrightarrow> 0 < c_n s \<and> 0 < c_p s) \<and>
     (c_pc s = C_copy \<or> c_pc s = C_poll \<or> c_pc s = C_recycle2
        \<longrightarrow> length (c_out s) = c_n s \<and> c_n s + c_p s = c_len0 s) \<and>
     (c_pc s \<noteq> C_copy \<and> c_pc s \<noteq> C_poll \<and> c_pc s \<noteq> C_recycle2 \<longrightarrow> c_out s = []) \<and>
     (c_pc s = C_wait \<or> c_pc s = C_recycle1 \<or> c_pc s = C_stop \<or> c_pc s = C_drain
        \<longrightarrow> c_n s = 0 \<and> c_p s = c_len0 s) \<and>
     (c_pc s = C_wait \<longrightarrow> c_adopted s = 0) \<and> c_adopted s \<le> 1 \<and>
     (c_pc s = K_push \<longrightarrow> k_buf s \<noteq> NilSlice \<and> r_buf s \<noteq> NilSlice) \<and>
     (c_pc s = K_range \<or> c_pc s = K_push \<longrightarrow> src_closed s)"

text \<open>All of it.\<close>

definition inv_all :: "state \<Rightarrow> bool" where
  "inv_all s \<longleftrightarrow> owned s = {#Buf1, Buf2, Buf3#} \<and> inv_prod s \<and> inv_timer s \<and> inv_cons s"

section \<open>Observations\<close>

text \<open>The events of the environment of a running call: the source, the goroutine, the timer.\<close>

fun is_env :: "event \<Rightarrow> bool" where
  "is_env (SrcRead d e) = True"
| "is_env Producer = True"
| "is_env TimerFire = True"
| "is_env _ = False"

text \<open>
  The value a return hands back, by the place it returns from: the timer case of line 94,
  the error path of line 111, the copy loop (lines 122, 129, 138), and line 79 of
  \<open>Close\<close>.
\<close>

definition ret_at :: "state \<Rightarrow> ret \<Rightarrow> bool" where
  "ret_at s r \<longleftrightarrow>
     (c_pc s = C_wait \<and> r = Read_ret (c_len0 s) 0 [] (Some ErrNoData)) \<or>
     (c_pc s = C_errsend \<and> r = Read_ret (c_len0 s) 0 [] (p_err s) \<and> p_err s \<noteq> None) \<or>
     ((c_pc s = C_copy \<or> c_pc s = C_poll \<or> c_pc s = C_recycle2) \<and>
      (\<exists>n d. r = Read_ret (c_len0 s) n d None \<and> length d = n \<and> n \<le> c_len0 s \<and>
             (0 < c_len0 s \<longrightarrow> 0 < n))) \<or>
     (c_pc s = K_range \<and> r = Close_ret (k_err s) \<and> p_pc s = P_done)"

text \<open>The bytes the calls have handed to the user, oldest first.\<close>

fun ret_bytes :: "ret \<Rightarrow> byte list" where
  "ret_bytes (Read_ret l n d e) = d"
| "ret_bytes (Close_ret e) = []"

definition delivered :: "ret list \<Rightarrow> byte list" where
  "delivered h = concat (map ret_bytes h)"



text \<open>A return that hands back no bytes and the error \<open>x\<close>; one that may also time out.\<close>

definition sticky_ret :: "error option \<Rightarrow> ret \<Rightarrow> bool" where
  "sticky_ret x r \<longleftrightarrow> (case r of Read_ret l n d e \<Rightarrow> n = 0 \<and> d = [] \<and> e = x | Close_ret e \<Rightarrow> True)"

definition soft_ret :: "error option \<Rightarrow> ret \<Rightarrow> bool" where
  "soft_ret x r \<longleftrightarrow>
     (case r of
        Read_ret l n d e \<Rightarrow> n = 0 \<and> d = [] \<and> (e = Some ErrNoData \<or> e = x)
      | Close_ret e \<Rightarrow> True)"

text \<open>
  The source has returned its error and every byte it returned has been handed to the
  user: the goroutine holds an error and has published what came with it (it waits for
  a buffer at line 57 or is past the test of line 60), the queue is empty, \<open>r.buf\<close> is
  used up, and no call holds bytes it has yet to return.
\<close>

definition drained :: "state \<Rightarrow> bool" where
  "drained s \<longleftrightarrow>
     (p_pc s = P_recv \<and> p_err s \<noteq> None \<or>
      p_pc s = P_err \<or> p_pc s = P_close \<or> p_pc s = P_done) \<and>
     next_q s = [] \<and> r_i s = len (r_buf s) \<and>
     c_pc s \<noteq> C_copy \<and> c_pc s \<noteq> C_poll \<and> c_pc s \<noteq> C_recycle2 \<and>
     (c_pc s = C_recycle1 \<longrightarrow> c_buf s = NilSlice)"

text \<open>
  The error of the last call of the source in a schedule (\<open>x\<close> when there is none).
\<close>

fun last_err :: "error option \<Rightarrow> event list \<Rightarrow> error option" where
  "last_err x [] = x"
| "last_err x (SrcRead d e # es) = last_err e es"
| "last_err x (_ # es) = last_err x es"


text \<open>
  The errors the source's \<open>Close\<close> returned in a schedule; the errors \<open>Close\<close> has returned
  so far, and the one a running \<open>Close\<close> holds.
\<close>

fun close_calls :: "event list \<Rightarrow> error option list" where
  "close_calls [] = []"
| "close_calls (CallClose e # es) = e # close_calls es"
| "close_calls (_ # es) = close_calls es"

fun close_rets :: "ret list \<Rightarrow> error option list" where
  "close_rets [] = []"
| "close_rets (Close_ret e # h) = e # close_rets h"
| "close_rets (_ # h) = close_rets h"

definition close_pending :: "state \<Rightarrow> error option list" where
  "close_pending s = (if c_pc s = K_range \<or> c_pc s = K_push then [k_err s] else [])"

definition closes :: "state \<Rightarrow> error option list" where
  "closes s = close_rets (hist s) @ close_pending s"


text \<open>What the examples look at in the state a schedule ends in.\<close>

definition view ::
  "state \<Rightarrow> ret list \<times> cpc \<times> ppc \<times> slice \<times> nat \<times> slice list \<times> slice list \<times> error option" where
  "view s = (hist s, c_pc s, p_pc s, r_buf s, r_i s, next_q s, pool_q s, p_err s)"

section \<open>Schedules used as examples\<close>

text \<open>
  Bytes are written as numbers: \<open>72 101\<close> is \<open>He\<close>, \<open>72 105\<close> is \<open>Hi\<close>.

  Nothing arrives and the timer fires; then the source returns two bytes and the next
  \<open>Read\<close> gets them.
\<close>

definition sched_timeout :: "event list" where
  "sched_timeout = [CallRead 12, TimerFire, SelTimer]"

definition sched_recover :: "event list" where
  "sched_recover =
     sched_timeout @
     [SrcRead [72, 101] None, Producer, CallRead 12, SelNext, Consumer, Consumer, Consumer, Consumer]"

text \<open>
  The source returns \<open>H\<close> and \<open>e\<close> in two calls; one \<open>Read\<close> of 12 bytes takes the first
  slice in its wait loop and the second in its copy loop.
\<close>

definition sched_two_slices :: "event list" where
  "sched_two_slices =
     [SrcRead [72] None, Producer, Producer, SrcRead [101] None,
      CallRead 12, SelNext, Consumer, Consumer, Producer,
      Consumer, Consumer, Consumer, Consumer, Consumer]"

text \<open>A \<open>Read\<close> has just received a slice in its wait loop.\<close>

definition sched_adopt :: "event list" where
  "sched_adopt = [SrcRead [72] None, Producer, CallRead 12, SelNext]"


text \<open>
  The destination has room for 3 bytes and the source returns the bytes 1, 2, 3 in three
  calls, each slice ready before \<open>Read\<close> looks for it.
\<close>

definition sched_short_return :: "event list" where
  "sched_short_return =
     [SrcRead [1] None, Producer, Producer, SrcRead [2] None,
      CallRead 3, SelNext, Consumer, Consumer, Producer, Producer, SrcRead [3] None,
      Consumer, Consumer, Producer, Consumer, Consumer]"

text \<open>
  The source's first \<open>Read\<close> returns end of file and no bytes. After that: a \<open>Read\<close> times
  out while the goroutine has not yet recorded the error; the goroutine records it and
  closes the queue; a second \<open>Read\<close> times out all the same, the \<open>select\<close> of line 92 having
  both cases ready; a third sees the closed queue and returns the error, and so does a
  fourth.
\<close>

definition sched_src_eof :: "event list" where
  "sched_src_eof = [SrcRead [] (Some (SrcError ''EOF''))]"

definition sched_two_timeouts :: "event list" where
  "sched_two_timeouts =
     [CallRead 1, TimerFire, SelTimer,
      Producer, Producer,
      CallRead 1, TimerFire, SelTimer]"

definition sched_after_eof :: "event list" where
  "sched_after_eof =
     sched_two_timeouts @
     [CallRead 1, SelNext, Consumer, Consumer, Consumer, Consumer,
      CallRead 5, Consumer, Consumer, Consumer]"

definition sched_late_error :: "event list" where
  "sched_late_error = sched_src_eof @ sched_after_eof"

text \<open>One more \<open>Read\<close>, during which the timer fires.\<close>

definition sched_again :: "event list" where
  "sched_again = [CallRead 7, TimerFire, Consumer, Consumer, Consumer, Consumer]"



text \<open>
  The goroutine is blocked on line 56 with a second slice when \<open>Close\<close> is called; the
  source's \<open>Close\<close> returns an error of its own. \<open>Close\<close> drains both slices, the source's
  \<open>Read\<close> then fails, and \<open>Close\<close> returns when it finds the queue closed.
\<close>

definition sched_blocked_send :: "event list" where
  "sched_blocked_send =
     [SrcRead [72] None, Producer, Producer, SrcRead [105] None,
      CallClose (Some (SrcError ''closed''))]"

definition sched_close :: "event list" where
  "sched_close =
     sched_blocked_send @
     [Consumer, Consumer, Producer, Producer,
      SrcRead [] (Some (SrcError ''EOF'')), Consumer, Consumer, Producer, Producer, Consumer]"

text \<open>A \<open>Read\<close> has been called and nothing has arrived.\<close>

definition sched_waiting :: "event list" where
  "sched_waiting = [CallRead 4]"

section \<open>Basic facts\<close>

lemma held_append [simp]: "held (xs @ ys) = held xs + held ys"
  by (induction xs) (simp_all add: ac_simps)

lemma owner_of_full [simp]: "owner_of (full b) = owner_of b"
  by (cases b) simp_all

lemma owner_of_reslice [simp]: "owner_of (reslice b n) = owner_of b"
  by (cases b) simp_all

lemma len_reslice [simp]: "b \<noteq> NilSlice \<Longrightarrow> len (reslice b n) = n"
  by (cases b) simp_all

lemma len_full [simp]: "b \<noteq> NilSlice \<Longrightarrow> len (full b) = bufcap"
  by (cases b) simp_all

lemma full_eq_Nil [simp]: "full b = NilSlice \<longleftrightarrow> b = NilSlice"
  by (cases b) simp_all

lemma len_pos_not_Nil: "0 < len b \<Longrightarrow> b \<noteq> NilSlice"
  by (cases b) simp_all

lemma length_bytes_of:
  "\<forall>b. length (m b) = bufcap \<Longrightarrow> len x \<le> bufcap \<Longrightarrow> length (bytes_of m x) = len x"
  by (cases x) simp_all

lemma length_write_buf:
  "\<forall>b. length (m b) = bufcap \<Longrightarrow> length d \<le> len x \<Longrightarrow> len x = bufcap \<Longrightarrow>
   length (write_buf x d m b) = bufcap"
  by (cases x) simp_all

lemma run_append:
  "run (es @ fs) s = (case run es s of None \<Rightarrow> None | Some s' \<Rightarrow> run fs s')"
  by (induction es arbitrary: s) (simp_all split: option.splits)

lemmas role_defs = owned_def filling_def in_transit_def at_consumer_def idle_pool_def

subsection \<open>No step creates, loses or duplicates a buffer\<close>

lemma owned_init: "owned NewReader = {#Buf1, Buf2, Buf3#}"
  by (simp add: role_defs NewReader_def)

lemma owned_src_read: "src_read d e s = Some s' \<Longrightarrow> owned s' = owned s"
  unfolding src_read_def
  by (clarsimp simp: role_defs split: if_splits)

lemma owned_prod: "prod_step s = Some s' \<Longrightarrow> owned s' = owned s"
  unfolding prod_step_def
  by (cases "p_pc s") (clarsimp simp: role_defs split: if_splits list.splits)+

lemma owned_timer: "timer_fire s = Some s' \<Longrightarrow> owned s' = owned s"
  unfolding timer_fire_def
  by (clarsimp simp: role_defs split: if_splits)

lemma owned_call_read: "call_read l s = Some s' \<Longrightarrow> owned s' = owned s"
  unfolding call_read_def
  by (clarsimp simp: role_defs wait_or_stop_def Let_def split: if_splits)

lemma owned_call_close: "call_close e s = Some s' \<Longrightarrow> owned s' = owned s"
  unfolding call_close_def
  by (clarsimp simp: role_defs split: if_splits)

lemma owned_sel_timer: "sel_timer s = Some s' \<Longrightarrow> owned s' = owned s"
  unfolding sel_timer_def
  by (clarsimp simp: role_defs ret_read_def split: if_splits)

lemma owned_sel_next: "sel_next s = Some s' \<Longrightarrow> owned s' = owned s"
  unfolding sel_next_def
  by (clarsimp simp: role_defs split: if_splits list.splits)

lemma owned_read_step: "read_step s = Some s' \<Longrightarrow> owned s' = owned s"
  unfolding read_step_def
  by (cases "c_pc s")
     (clarsimp simp: role_defs ret_read_def wait_or_stop_def after_wait_def Let_def
        split: if_splits list.splits)+

lemma owned_close_step: "close_step s = Some s' \<Longrightarrow> owned s' = owned s"
  unfolding close_step_def
  by (cases "c_pc s") (clarsimp simp: role_defs split: if_splits list.splits)+

lemma owned_step: "step e s = Some s' \<Longrightarrow> owned s' = owned s"
  by (cases e)
     (simp_all add: owned_src_read owned_prod owned_timer owned_call_read owned_call_close
        owned_sel_timer owned_sel_next owned_read_step owned_close_step split: if_splits)

subsection \<open>The goroutine's invariant\<close>

lemma inv_prod_init: "inv_prod NewReader"
  by (simp add: inv_prod_def NewReader_def)

lemma inv_prod_src_read: "inv_prod s \<Longrightarrow> src_read d e s = Some s' \<Longrightarrow> inv_prod s'"
  unfolding src_read_def
  by (clarsimp simp: inv_prod_def split: if_splits)

lemma inv_prod_prod: "inv_prod s \<Longrightarrow> prod_step s = Some s' \<Longrightarrow> inv_prod s'"
  unfolding prod_step_def
  by (cases "p_pc s") (clarsimp simp: inv_prod_def split: if_splits list.splits)+

lemma inv_prod_timer: "inv_prod s \<Longrightarrow> timer_fire s = Some s' \<Longrightarrow> inv_prod s'"
  unfolding timer_fire_def
  by (clarsimp simp: inv_prod_def split: if_splits)

lemma inv_prod_call_read: "inv_prod s \<Longrightarrow> call_read l s = Some s' \<Longrightarrow> inv_prod s'"
  unfolding call_read_def
  by (clarsimp simp: inv_prod_def wait_or_stop_def Let_def split: if_splits)

lemma inv_prod_call_close: "inv_prod s \<Longrightarrow> call_close e s = Some s' \<Longrightarrow> inv_prod s'"
  unfolding call_close_def
  by (clarsimp simp: inv_prod_def split: if_splits)

lemma inv_prod_sel_timer: "inv_prod s \<Longrightarrow> sel_timer s = Some s' \<Longrightarrow> inv_prod s'"
  unfolding sel_timer_def
  by (clarsimp simp: inv_prod_def ret_read_def split: if_splits)

lemma inv_prod_sel_next: "inv_prod s \<Longrightarrow> sel_next s = Some s' \<Longrightarrow> inv_prod s'"
  unfolding sel_next_def
  by (clarsimp simp: inv_prod_def split: if_splits list.splits)

lemma inv_prod_read_step: "inv_prod s \<Longrightarrow> read_step s = Some s' \<Longrightarrow> inv_prod s'"
  unfolding read_step_def
  by (cases "c_pc s")
     (clarsimp simp: inv_prod_def ret_read_def wait_or_stop_def after_wait_def Let_def
        split: if_splits list.splits)+

lemma inv_prod_close_step: "inv_prod s \<Longrightarrow> close_step s = Some s' \<Longrightarrow> inv_prod s'"
  unfolding close_step_def
  by (cases "c_pc s") (clarsimp simp: inv_prod_def split: if_splits list.splits)+

subsection \<open>The timer's invariant\<close>

lemma inv_timer_init: "inv_timer NewReader"
  by (simp add: inv_timer_def NewReader_def)

lemma inv_timer_src_read: "inv_timer s \<Longrightarrow> src_read d e s = Some s' \<Longrightarrow> inv_timer s'"
  unfolding src_read_def
  by (clarsimp simp: inv_timer_def split: if_splits)

lemma inv_timer_prod: "inv_timer s \<Longrightarrow> prod_step s = Some s' \<Longrightarrow> inv_timer s'"
  unfolding prod_step_def
  by (cases "p_pc s") (clarsimp simp: inv_timer_def split: if_splits list.splits)+

lemma inv_timer_timer: "inv_timer s \<Longrightarrow> timer_fire s = Some s' \<Longrightarrow> inv_timer s'"
  unfolding timer_fire_def
  by (clarsimp simp: inv_timer_def split: if_splits)

lemma inv_timer_call_read: "inv_timer s \<Longrightarrow> call_read l s = Some s' \<Longrightarrow> inv_timer s'"
  unfolding call_read_def
  by (clarsimp simp: inv_timer_def wait_or_stop_def Let_def split: if_splits)

lemma inv_timer_call_close: "inv_timer s \<Longrightarrow> call_close e s = Some s' \<Longrightarrow> inv_timer s'"
  unfolding call_close_def
  by (clarsimp simp: inv_timer_def split: if_splits)

lemma inv_timer_sel_timer: "inv_timer s \<Longrightarrow> sel_timer s = Some s' \<Longrightarrow> inv_timer s'"
  unfolding sel_timer_def
  by (clarsimp simp: inv_timer_def ret_read_def split: if_splits)

lemma inv_timer_sel_next: "inv_timer s \<Longrightarrow> sel_next s = Some s' \<Longrightarrow> inv_timer s'"
  unfolding sel_next_def
  by (clarsimp simp: inv_timer_def split: if_splits list.splits)

lemma inv_timer_read_step: "inv_timer s \<Longrightarrow> read_step s = Some s' \<Longrightarrow> inv_timer s'"
  unfolding read_step_def
  by (cases "c_pc s")
     (clarsimp simp: inv_timer_def ret_read_def wait_or_stop_def after_wait_def Let_def
        split: if_splits list.splits)+

lemma inv_timer_close_step: "inv_timer s \<Longrightarrow> close_step s = Some s' \<Longrightarrow> inv_timer s'"
  unfolding close_step_def
  by (cases "c_pc s") (clarsimp simp: inv_timer_def split: if_splits list.splits)+

subsection \<open>The invariant of the user's thread\<close>

lemma inv_cons_init: "inv_cons NewReader"
  by (simp add: inv_cons_def NewReader_def)

lemma inv_cons_src_read: "inv_cons s \<Longrightarrow> src_read d e s = Some s' \<Longrightarrow> inv_cons s'"
  unfolding src_read_def
  by (clarsimp simp: inv_cons_def length_write_buf split: if_splits)

lemma inv_cons_prod: "inv_cons s \<Longrightarrow> inv_prod s \<Longrightarrow> prod_step s = Some s' \<Longrightarrow> inv_cons s'"
  unfolding prod_step_def
  by (cases "p_pc s") (clarsimp simp: inv_cons_def inv_prod_def split: if_splits list.splits)+

lemma inv_cons_timer: "inv_cons s \<Longrightarrow> timer_fire s = Some s' \<Longrightarrow> inv_cons s'"
  unfolding timer_fire_def
  by (clarsimp simp: inv_cons_def split: if_splits)

lemma inv_cons_call_read: "inv_cons s \<Longrightarrow> call_read l s = Some s' \<Longrightarrow> inv_cons s'"
  unfolding call_read_def
  by (clarsimp simp: inv_cons_def wait_or_stop_def Let_def split: if_splits)

lemma inv_cons_call_close: "inv_cons s \<Longrightarrow> call_close e s = Some s' \<Longrightarrow> inv_cons s'"
  unfolding call_close_def
  by (clarsimp simp: inv_cons_def split: if_splits)

lemma inv_cons_sel_timer: "inv_cons s \<Longrightarrow> sel_timer s = Some s' \<Longrightarrow> inv_cons s'"
  unfolding sel_timer_def
  by (clarsimp simp: inv_cons_def ret_read_def split: if_splits)

lemma inv_cons_sel_next: "inv_cons s \<Longrightarrow> sel_next s = Some s' \<Longrightarrow> inv_cons s'"
  unfolding sel_next_def
  by (clarsimp simp: inv_cons_def split: if_splits list.splits)

lemma inv_cons_read_step:
  assumes "inv_cons s" "read_step s = Some s'"
  shows "inv_cons s'"
proof (cases "c_pc s = C_copy")
  case True
  have "r_buf s \<noteq> NilSlice" "r_i s < len (r_buf s)" "c_buf s = r_buf s"
    using assms(1) True by (auto simp: inv_cons_def)
  then show ?thesis
    using assms True unfolding read_step_def
    by (clarsimp simp: inv_cons_def ret_read_def Let_def length_bytes_of split: if_splits)
       (auto simp: min_def split: if_splits)
next
  case False
  then show ?thesis
    using assms unfolding read_step_def
    by (cases "c_pc s")
       (clarsimp simp: inv_cons_def ret_read_def wait_or_stop_def after_wait_def Let_def
          split: if_splits list.splits)+
qed

lemma inv_cons_close_step: "inv_cons s \<Longrightarrow> close_step s = Some s' \<Longrightarrow> inv_cons s'"
  unfolding close_step_def
  by (cases "c_pc s") (clarsimp simp: inv_cons_def len_pos_not_Nil split: if_splits list.splits)+

subsection \<open>All of them, along every schedule\<close>

lemma inv_init: "inv_all NewReader"
  by (simp add: inv_all_def owned_init inv_prod_init inv_timer_init inv_cons_init)

lemma inv_prod_step: "inv_prod s \<Longrightarrow> step e s = Some s' \<Longrightarrow> inv_prod s'"
  by (cases e; simp split: if_splits)
     (blast intro: inv_prod_src_read inv_prod_prod inv_prod_timer inv_prod_call_read
        inv_prod_call_close inv_prod_sel_timer inv_prod_sel_next inv_prod_read_step
        inv_prod_close_step)+

lemma inv_timer_step: "inv_timer s \<Longrightarrow> step e s = Some s' \<Longrightarrow> inv_timer s'"
  by (cases e; simp split: if_splits)
     (blast intro: inv_timer_src_read inv_timer_prod inv_timer_timer inv_timer_call_read
        inv_timer_call_close inv_timer_sel_timer inv_timer_sel_next inv_timer_read_step
        inv_timer_close_step)+

lemma inv_cons_step: "inv_cons s \<Longrightarrow> inv_prod s \<Longrightarrow> step e s = Some s' \<Longrightarrow> inv_cons s'"
  by (cases e; simp split: if_splits)
     (blast intro: inv_cons_src_read inv_cons_prod inv_cons_timer inv_cons_call_read
        inv_cons_call_close inv_cons_sel_timer inv_cons_sel_next inv_cons_read_step
        inv_cons_close_step)+

lemma inv_step: "inv_all s \<Longrightarrow> step e s = Some s' \<Longrightarrow> inv_all s'"
  unfolding inv_all_def
  using owned_step [of e s s'] inv_prod_step [of s e s'] inv_timer_step [of s e s']
    inv_cons_step [of s e s']
  by simp

lemma inv_run: "inv_all s \<Longrightarrow> run es s = Some s' \<Longrightarrow> inv_all s'"
proof (induction es arbitrary: s)
  case Nil
  then show ?case by simp
next
  case (Cons e es)
  then obtain s1 where "step e s = Some s1" "run es s1 = Some s'"
    by (auto split: option.splits)
  with Cons show ?case using inv_step by blast
qed

lemma inv_reach: "run es NewReader = Some s \<Longrightarrow> inv_all s"
  using inv_run [OF inv_init] .

subsection \<open>Counting the buffers: the sends to the pool never block\<close>

lemma size_owner_of: "size (owner_of b) = (if b = NilSlice then 0 else 1)"
  by (cases b) simp_all

lemma size_held: "\<forall>b \<in> set xs. b \<noteq> NilSlice \<Longrightarrow> size (held xs) = length xs"
  by (induction xs) (simp_all add: size_owner_of)

lemma buffer_count:
  assumes "inv_all s"
  shows "size (held (filling s)) + size (held (next_q s)) + size (held (at_consumer s))
           + length (pool_q s) = 3"
proof -
  have "owned s = {#Buf1, Buf2, Buf3#}"
    using assms by (simp add: inv_all_def)
  then have "size (owned s) = 3"
    by simp
  moreover have "\<forall>b \<in> set (pool_q s). b \<noteq> NilSlice"
    using assms by (simp add: inv_all_def inv_cons_def)
  then have "size (held (pool_q s)) = length (pool_q s)"
    by (rule size_held)
  ultimately show ?thesis
    by (simp add: owned_def in_transit_def idle_pool_def)
qed

lemma pool_room:
  assumes "inv_all s" "c_pc s = C_recycle1 \<or> c_pc s = C_recycle2 \<or> c_pc s = K_push"
  shows "length (pool_q s) < 2"
proof -
  have c: "inv_cons s" and p: "inv_prod s"
    using assms(1) by (simp_all add: inv_all_def)
  have r: "r_buf s = NilSlice \<longrightarrow> next_closed s"
    using c by (simp add: inv_cons_def)
  have cb: "c_pc s \<noteq> K_push \<longrightarrow> c_buf s = NilSlice \<longrightarrow> next_closed s"
    using c assms(2) by (elim disjE) (simp_all add: inv_cons_def)
  have rb: "c_pc s \<noteq> K_push \<longrightarrow> r_buf s \<noteq> NilSlice"
    using c assms(2) by (elim disjE) (simp_all add: inv_cons_def)
  have kb: "c_pc s = K_push \<longrightarrow> k_buf s \<noteq> NilSlice"
    using c by (simp add: inv_cons_def)
  have pb: "p_buf s \<noteq> NilSlice"
    using c by (simp add: inv_cons_def)
  have d: "next_closed s \<longrightarrow> p_pc s = P_done"
    using p by (simp add: inv_prod_def)
  have "3 \<le> size (held (filling s)) + size (held (at_consumer s)) + 1"
    using assms(2) r cb rb kb pb d
    by (elim disjE) (auto simp: filling_def at_consumer_def size_owner_of)
  then show ?thesis
    using buffer_count [OF assms(1)] by simp
qed

subsection \<open>What a step may append to the history\<close>

lemma prod_frame:
  "prod_step s = Some s' \<Longrightarrow>
   c_pc s' = c_pc s \<and> r_buf s' = r_buf s \<and> r_i s' = r_i s \<and> c_out s' = c_out s \<and>
   c_len0 s' = c_len0 s \<and> hist s' = hist s"
  unfolding prod_step_def
  by (cases "p_pc s") (clarsimp split: if_splits list.splits)+

lemma env_frame:
  assumes "is_env e" "step e s = Some s'"
  shows "c_pc s' = c_pc s \<and> r_buf s' = r_buf s \<and> r_i s' = r_i s \<and> c_out s' = c_out s \<and>
         c_len0 s' = c_len0 s \<and> hist s' = hist s"
proof (cases e)
  case (SrcRead d x)
  then show ?thesis
    using assms by (clarsimp simp: src_read_def split: if_splits)
next
  case Producer
  then show ?thesis
    using assms prod_frame [of s s'] by simp
next
  case TimerFire
  then show ?thesis
    using assms by (clarsimp simp: timer_fire_def split: if_splits)
qed (use assms in simp_all)


lemma hist_sel_timer:
  "inv_all s \<Longrightarrow> sel_timer s = Some s' \<Longrightarrow> \<exists>r. hist s' = hist s @ [r] \<and> ret_at s r"
  unfolding sel_timer_def
  by (clarsimp simp: ret_read_def ret_at_def inv_all_def inv_cons_def split: if_splits)

lemma hist_close_step:
  "inv_all s \<Longrightarrow> close_step s = Some s' \<Longrightarrow>
   hist s' = hist s \<or> (\<exists>r. hist s' = hist s @ [r] \<and> ret_at s r)"
  unfolding close_step_def
  by (cases "c_pc s")
     (clarsimp simp: ret_at_def inv_all_def inv_prod_def split: if_splits list.splits)+

lemma hist_read_step:
  assumes "inv_all s" "read_step s = Some s'"
  shows "hist s' = hist s \<or> (\<exists>r. hist s' = hist s @ [r] \<and> ret_at s r)"
proof (cases "c_pc s = C_copy")
  case True
  have "r_i s < len (r_buf s)" "c_buf s = r_buf s"
    "length (bytes_of (mem s) (r_buf s)) = len (r_buf s)"
    "length (c_out s) = c_n s" "c_n s + c_p s = c_len0 s" "c_n s = 0 \<or> 0 < c_p s"
    using assms(1) True by (simp_all add: inv_all_def inv_cons_def length_bytes_of)
  then show ?thesis
    using assms(2) True unfolding read_step_def
    by (clarsimp simp: ret_read_def ret_at_def Let_def split: if_splits)
next
  case False
  then show ?thesis
    using assms unfolding read_step_def
    by (cases "c_pc s")
       (clarsimp simp: ret_read_def ret_at_def Let_def inv_all_def inv_cons_def inv_prod_def
          split: if_splits list.splits)+
qed

lemma hist_step:
  assumes "inv_all s" "step e s = Some s'"
  shows "hist s' = hist s \<or> (\<exists>r. hist s' = hist s @ [r] \<and> ret_at s r)"
proof (cases "is_env e")
  case True
  then show ?thesis using env_frame [OF True assms(2)] by simp
next
  case False
  then show ?thesis
    using assms hist_sel_timer [of s s'] hist_close_step [of s s'] hist_read_step [of s s']
    by (cases e)
       (simp_all add: call_read_def call_close_def sel_next_def Let_def
          split: if_splits list.splits, auto)
qed

subsection \<open>Where the bytes of the source are\<close>

lemma delivered_snoc [simp]: "delivered (h @ [r]) = delivered h @ ret_bytes r"
  by (simp add: delivered_def)

lemma count_three: "count {#Buf1, Buf2, Buf3#} b = 1"
  by (cases b) simp_all


















subsection \<open>After the closed queue has been seen\<close>

lemma nil_pcs:
  assumes "inv_all s" "r_buf s = NilSlice"
  shows "c_pc s = C_idle \<or> c_pc s = C_stop \<or> c_pc s = C_drain \<or> c_pc s = C_errrecv \<or>
         c_pc s = C_errsend \<or> c_pc s = K_range"
    and "p_pc s = P_done" and "next_closed s" and "next_q s = []" and "p_err s \<noteq> None"
    and "c_pc s = C_stop \<or> c_pc s = C_drain \<Longrightarrow> c_buf s = NilSlice"
proof -
  have c: "inv_cons s" and p: "inv_prod s"
    using assms(1) by (simp_all add: inv_all_def)
  show "c_pc s = C_idle \<or> c_pc s = C_stop \<or> c_pc s = C_drain \<or> c_pc s = C_errrecv \<or>
         c_pc s = C_errsend \<or> c_pc s = K_range"
    using c assms(2) by (cases "c_pc s") (simp_all add: inv_cons_def)
  show nc: "next_closed s" and "next_q s = []"
    using c assms(2) by (simp_all add: inv_cons_def)
  show d: "p_pc s = P_done"
    using p nc by (simp add: inv_prod_def)
  show "p_err s \<noteq> None"
    using p d by (simp add: inv_prod_def)
  show "c_buf s = NilSlice" if "c_pc s = C_stop \<or> c_pc s = C_drain"
    using c assms(2) that by (elim disjE) (simp_all add: inv_cons_def)
qed

lemma nil_step:
  assumes "inv_all s" "r_buf s = NilSlice" "step e s = Some s'"
  shows "r_buf s' = NilSlice \<and> p_err s' = p_err s \<and>
         (hist s' = hist s \<or> (\<exists>r. hist s' = hist s @ [r] \<and> sticky_ret (p_err s) r))"
proof -
  note n = nil_pcs [OF assms(1,2)]
  have h: "hist s' = hist s \<or> (\<exists>r. hist s' = hist s @ [r] \<and> sticky_ret (p_err s) r)"
    using hist_step [OF assms(1,3)] n(1)
    by (auto simp: ret_at_def sticky_ret_def)
  have "r_buf s' = NilSlice \<and> p_err s' = p_err s"
  proof (cases e)
    case (SrcRead d x)
    then show ?thesis using assms(3) n(2) by (simp add: src_read_def)
  next
    case Producer
    then show ?thesis using assms(3) n(2) by (simp add: prod_step_def)
  next
    case TimerFire
    then show ?thesis using assms(2,3) by (clarsimp simp: timer_fire_def split: if_splits)
  next
    case (CallRead l)
    then show ?thesis using assms(2,3) by (clarsimp simp: call_read_def Let_def split: if_splits)
  next
    case (CallClose x)
    then show ?thesis using assms(2,3) by (clarsimp simp: call_close_def split: if_splits)
  next
    case SelTimer
    then show ?thesis using assms(3) n(1) by (auto simp: sel_timer_def)
  next
    case SelNext
    then show ?thesis using assms(3) n(1) by (auto simp: sel_next_def)
  next
    case Consumer
    then show ?thesis
      using assms(2,3) n(1,4)
      by (elim disjE)
         (clarsimp simp: read_step_def close_step_def ret_read_def
            split: if_splits list.splits)+
  qed
  then show ?thesis using h by simp
qed

lemma nil_run:
  assumes "inv_all s" "r_buf s = NilSlice" "run es s = Some s'"
  shows "r_buf s' = NilSlice \<and> p_err s' = p_err s \<and>
         (\<exists>h. hist s' = hist s @ h \<and> (\<forall>r \<in> set h. sticky_ret (p_err s) r))"
  using assms
proof (induction es arbitrary: s)
  case Nil
  then show ?case by simp
next
  case (Cons e es)
  then obtain s1 where s1: "step e s = Some s1" "run es s1 = Some s'"
    by (auto split: option.splits)
  note a = nil_step [OF Cons.prems(1,2) s1(1)]
  note b = Cons.IH [OF inv_step [OF Cons.prems(1) s1(1)] _ s1(2)]
  from a b obtain h where h: "hist s' = hist s1 @ h" "\<forall>r \<in> set h. sticky_ret (p_err s) r"
    and r: "r_buf s' = NilSlice" "p_err s' = p_err s"
    by auto
  from a consider "hist s1 = hist s" | r0 where "hist s1 = hist s @ [r0]" "sticky_ret (p_err s) r0"
    by auto
  then have "\<exists>h. hist s' = hist s @ h \<and> (\<forall>r \<in> set h. sticky_ret (p_err s) r)"
  proof cases
    case 1
    then show ?thesis using h by auto
  next
    case 2
    then have "hist s' = hist s @ (r0 # h)" "\<forall>r \<in> set (r0 # h). sticky_ret (p_err s) r"
      using h by simp_all
    then show ?thesis by blast
  qed
  then show ?case using r by simp
qed

subsection \<open>Which steps are enabled\<close>

lemma recycle_enabled:
  assumes "inv_all s" "c_pc s = C_recycle1 \<or> c_pc s = C_recycle2"
  shows "\<exists>s'. step Consumer s = Some s' \<and>
           c_pc s' = (if c_pc s = C_recycle1 then C_stop
                      else if c_buf s = NilSlice then C_idle else C_copy) \<and>
           r_buf s' = c_buf s"
proof -
  have room: "length (pool_q s) < 2"
    using pool_room [OF assms(1)] assms(2) by blast
  have "c_buf s \<noteq> NilSlice \<longrightarrow> 0 < len (c_buf s)"
    using assms by (elim disjE) (simp_all add: inv_all_def inv_cons_def)
  then show ?thesis
    using assms(2) room
    by (elim disjE) (auto simp: read_step_def wait_or_stop_def ret_read_def Let_def)
qed

lemma copy_loop_enabled:
  assumes "inv_all s" "c_pc s = C_copy \<or> c_pc s = C_poll \<or> c_pc s = C_recycle2"
  shows "step Consumer s \<noteq> None"
proof -
  consider "c_pc s = C_copy" | "c_pc s = C_poll" | "c_pc s = C_recycle2"
    using assms(2) by blast
  then show ?thesis
  proof cases
    case 1
    then show ?thesis by (simp add: read_step_def Let_def)
  next
    case 2
    then show ?thesis by (simp add: read_step_def split: list.splits)
  next
    case 3
    then show ?thesis using recycle_enabled [OF assms(1)] by auto
  qed
qed

subsection \<open>Bookkeeping along a schedule\<close>



lemma p_err_step: "step e s = Some s' \<Longrightarrow> p_err s' = last_err (p_err s) [e]"
proof (cases e)
  case (SrcRead d x)
  assume "step e s = Some s'"
  then show ?thesis using SrcRead by (clarsimp simp: src_read_def split: if_splits)
next
  case Producer
  assume "step e s = Some s'"
  then have "prod_step s = Some s'" using Producer by simp
  then have "p_err s' = p_err s"
    unfolding prod_step_def
    by (cases "p_pc s") (clarsimp split: if_splits list.splits)+
  then show ?thesis using Producer by simp
next
  case TimerFire
  assume "step e s = Some s'"
  then show ?thesis using TimerFire by (clarsimp simp: timer_fire_def split: if_splits)
next
  case (CallRead l)
  assume "step e s = Some s'"
  then show ?thesis using CallRead by (clarsimp simp: call_read_def Let_def split: if_splits)
next
  case (CallClose x)
  assume "step e s = Some s'"
  then show ?thesis using CallClose by (clarsimp simp: call_close_def split: if_splits)
next
  case SelTimer
  assume "step e s = Some s'"
  then show ?thesis using SelTimer by (clarsimp simp: sel_timer_def ret_read_def split: if_splits)
next
  case SelNext
  assume "step e s = Some s'"
  then show ?thesis using SelNext by (clarsimp simp: sel_next_def split: if_splits list.splits)
next
  case Consumer
  assume "step e s = Some s'"
  then have "read_step s = Some s' \<or> close_step s = Some s'"
    using Consumer by (simp split: if_splits)
  then have "p_err s' = p_err s"
    unfolding read_step_def close_step_def
    by (cases "c_pc s")
       (clarsimp simp: ret_read_def Let_def split: if_splits list.splits)+
  then show ?thesis using Consumer by simp
qed

lemma last_err_Cons: "last_err x (e # es) = last_err (last_err x [e]) es"
  by (cases e) simp_all

lemma p_err_run: "run es s = Some s' \<Longrightarrow> p_err s' = last_err (p_err s) es"
proof (induction es arbitrary: s)
  case Nil
  then show ?case by simp
next
  case (Cons e es)
  then obtain s1 where s1: "step e s = Some s1" "run es s1 = Some s'"
    by (auto split: option.splits)
  show ?case
    using Cons.IH [OF s1(2)] p_err_step [OF s1(1)] last_err_Cons [of "p_err s" e es] by simp
qed

lemma close_rets_append [simp]: "close_rets (h @ g) = close_rets h @ close_rets g"
  by (induction h rule: close_rets.induct) simp_all

lemma close_calls_Cons: "close_calls (e # es) = close_calls [e] @ close_calls es"
  by (cases e) simp_all

lemma closes_step: "step e s = Some s' \<Longrightarrow> closes s' = closes s @ close_calls [e]"
proof (cases e)
  case (SrcRead d x)
  assume "step e s = Some s'"
  then show ?thesis using SrcRead
    by (clarsimp simp: src_read_def closes_def close_pending_def split: if_splits)
next
  case Producer
  assume "step e s = Some s'"
  then have "prod_step s = Some s'" using Producer by simp
  then have "closes s' = closes s"
    unfolding prod_step_def
    by (cases "p_pc s") (clarsimp simp: closes_def close_pending_def split: if_splits list.splits)+
  then show ?thesis using Producer by simp
next
  case TimerFire
  assume "step e s = Some s'"
  then show ?thesis using TimerFire
    by (clarsimp simp: timer_fire_def closes_def close_pending_def split: if_splits)
next
  case (CallRead l)
  assume "step e s = Some s'"
  then show ?thesis using CallRead
    by (clarsimp simp: call_read_def wait_or_stop_def Let_def closes_def close_pending_def
          split: if_splits)
next
  case (CallClose x)
  assume "step e s = Some s'"
  then show ?thesis using CallClose
    by (clarsimp simp: call_close_def closes_def close_pending_def split: if_splits)
next
  case SelTimer
  assume "step e s = Some s'"
  then show ?thesis using SelTimer
    by (clarsimp simp: sel_timer_def ret_read_def closes_def close_pending_def split: if_splits)
next
  case SelNext
  assume "step e s = Some s'"
  then show ?thesis using SelNext
    by (clarsimp simp: sel_next_def closes_def close_pending_def split: if_splits list.splits)
next
  case Consumer
  assume "step e s = Some s'"
  then have "read_step s = Some s' \<and> c_pc s \<noteq> K_range \<and> c_pc s \<noteq> K_push
             \<or> close_step s = Some s'"
    using Consumer by (simp split: if_splits)
  then have "closes s' = closes s"
    unfolding read_step_def close_step_def
    by (cases "c_pc s")
       (clarsimp simp: ret_read_def wait_or_stop_def after_wait_def Let_def closes_def
          close_pending_def split: if_splits list.splits)+
  then show ?thesis using Consumer by simp
qed

lemma closes_run: "run es s = Some s' \<Longrightarrow> closes s' = closes s @ close_calls es"
proof (induction es arbitrary: s)
  case Nil
  then show ?case by simp
next
  case (Cons e es)
  then obtain s1 where s1: "step e s = Some s1" "run es s1 = Some s'"
    by (auto split: option.splits)
  show ?case
    using Cons.IH [OF s1(2)] closes_step [OF s1(1)] close_calls_Cons [of e es] by simp
qed





lemma nil_drained:
  assumes "inv_all s" "r_buf s = NilSlice"
  shows "drained s"
proof -
  have "r_i s \<le> len (r_buf s)"
    using assms(1) by (simp add: inv_all_def inv_cons_def)
  then show ?thesis
    using nil_pcs [OF assms] assms(2) by (auto simp: drained_def)
qed

lemma drained_keeps:
  assumes "inv_all s" "drained s" "step e s = Some s'"
  shows "drained s'"
proof -
  have c: "inv_cons s" and p: "inv_prod s"
    using assms(1) by (simp_all add: inv_all_def)
  have d: "p_pc s = P_recv \<and> p_err s \<noteq> None \<or>
           p_pc s = P_err \<or> p_pc s = P_close \<or> p_pc s = P_done" "next_q s = []"
    "r_i s = len (r_buf s)" "c_pc s \<noteq> C_copy" "c_pc s \<noteq> C_poll" "c_pc s \<noteq> C_recycle2"
    "c_pc s = C_recycle1 \<longrightarrow> c_buf s = NilSlice"
    using assms(2) by (simp_all add: drained_def)
  have o: "\<not> next_closed s \<or> p_pc s = P_done"
    using p by (simp add: inv_prod_def)
  have w: "c_pc s = C_stop \<or> c_pc s = C_drain \<longrightarrow> c_buf s = NilSlice"
  proof
    assume a: "c_pc s = C_stop \<or> c_pc s = C_drain"
    then have "c_buf s = r_buf s" "r_buf s = NilSlice \<or> r_i s < len (r_buf s)"
      using c by (elim disjE; simp add: inv_cons_def)+
    then show "c_buf s = NilSlice"
      using d(3) by auto
  qed
  show ?thesis
  proof (cases e)
    case (SrcRead x y)
    then show ?thesis using assms(3) d(1) by (auto simp: src_read_def)
  next
    case Producer
    then have "prod_step s = Some s'" using assms(3) by simp
    then show ?thesis
      using d o unfolding prod_step_def
      by (elim disjE) (clarsimp simp: drained_def split: if_splits list.splits)+
  next
    case TimerFire
    then show ?thesis
      using assms(2,3) by (clarsimp simp: timer_fire_def drained_def split: if_splits)
  next
    case (CallRead l)
    then show ?thesis
      using assms(2,3)
      by (clarsimp simp: call_read_def wait_or_stop_def Let_def drained_def split: if_splits)
  next
    case (CallClose x)
    then show ?thesis
      using assms(2,3) by (clarsimp simp: call_close_def drained_def split: if_splits)
  next
    case SelTimer
    then show ?thesis
      using assms(2,3) by (clarsimp simp: sel_timer_def ret_read_def drained_def split: if_splits)
  next
    case SelNext
    then show ?thesis
      using assms(2,3) by (clarsimp simp: sel_next_def drained_def split: if_splits)
  next
    case Consumer
    then have "read_step s = Some s' \<or> close_step s = Some s'"
      using assms(3) by (simp split: if_splits)
    then show ?thesis
      using d w unfolding read_step_def close_step_def
      by (cases "c_pc s")
         (clarsimp simp: ret_read_def wait_or_stop_def after_wait_def drained_def
            split: if_splits list.splits)+
  qed
qed

lemma drained_step:
  assumes "inv_all s" "drained s" "step e s = Some s'"
  shows "drained s' \<and> p_err s' = p_err s \<and>
         (hist s' = hist s \<or> (\<exists>r. hist s' = hist s @ [r] \<and> soft_ret (p_err s) r))"
proof -
  have 1: "p_err s' = p_err s"
  proof (cases e)
    case (SrcRead x y)
    then show ?thesis using assms(2,3) by (auto simp: src_read_def drained_def)
  qed (use p_err_step [OF assms(3)] in simp_all)
  have 2: "hist s' = hist s \<or> (\<exists>r. hist s' = hist s @ [r] \<and> soft_ret (p_err s) r)"
    using hist_step [OF assms(1,3)] assms(2)
    by (auto simp: ret_at_def soft_ret_def drained_def)
  show ?thesis
    using drained_keeps [OF assms] 1 2 by simp
qed

lemma drained_run:
  assumes "inv_all s" "drained s" "run es s = Some s'"
  shows "drained s' \<and> p_err s' = p_err s \<and>
         (\<exists>h. hist s' = hist s @ h \<and> (\<forall>r \<in> set h. soft_ret (p_err s) r))"
  using assms
proof (induction es arbitrary: s)
  case Nil
  then show ?case by simp
next
  case (Cons e es)
  then obtain s1 where s1: "step e s = Some s1" "run es s1 = Some s'"
    by (auto split: option.splits)
  note a = drained_step [OF Cons.prems(1,2) s1(1)]
  note b = Cons.IH [OF inv_step [OF Cons.prems(1) s1(1)] _ s1(2)]
  from a b obtain h where h: "hist s' = hist s1 @ h" "\<forall>r \<in> set h. soft_ret (p_err s) r"
    and r: "drained s'" "p_err s' = p_err s"
    by auto
  from a consider "hist s1 = hist s" | r0 where "hist s1 = hist s @ [r0]" "soft_ret (p_err s) r0"
    by auto
  then have "\<exists>h. hist s' = hist s @ h \<and> (\<forall>r \<in> set h. soft_ret (p_err s) r)"
  proof cases
    case 1
    then show ?thesis using h by auto
  next
    case 2
    then have "hist s' = hist s @ (r0 # h)" "\<forall>r \<in> set (r0 # h). soft_ret (p_err s) r"
      using h by simp_all
    then show ?thesis by blast
  qed
  then show ?case using r by simp
qed

subsection \<open>The examples, evaluated\<close>

lemmas step_defs = src_read_def prod_step_def timer_fire_def call_read_def call_close_def
  sel_timer_def sel_next_def read_step_def close_step_def wait_or_stop_def after_wait_def
  ret_read_def Let_def


lemma sched_recover_view:
  "map_option view (run sched_recover NewReader) =
     Some ([Read_ret 12 0 [] (Some ErrNoData), Read_ret 12 2 [72, 101] None], C_idle, P_recv,
           Slice Buf2 2, 2, [], [Slice Buf3 bufcap, Slice Buf1 0], None)"
  unfolding sched_recover_def sched_timeout_def
  by (simp add: view_def NewReader_def step_defs bufcap_def)

lemma sched_two_slices_view:
  "map_option view (run sched_two_slices NewReader) =
     Some ([Read_ret 12 2 [72, 101] None], C_idle, P_recv, Slice Buf3 1, 1, [],
           [Slice Buf1 0, Slice Buf2 1], None)"
  unfolding sched_two_slices_def
  by (simp add: view_def NewReader_def step_defs bufcap_def)

lemma sched_adopt_view:
  "map_option view (run sched_adopt NewReader) =
     Some ([], C_recycle1, P_recv, Slice Buf1 0, 0, [], [Slice Buf3 bufcap], None)"
  unfolding sched_adopt_def
  by (simp add: view_def NewReader_def step_defs bufcap_def)

lemma sched_src_eof_view:
  "map_option view (run sched_src_eof NewReader) =
     Some ([], C_idle, P_err, Slice Buf1 0, 0, [], [Slice Buf3 bufcap], Some (SrcError ''EOF''))"
  unfolding sched_src_eof_def
  by (simp add: view_def NewReader_def step_defs bufcap_def)

lemma sched_two_timeouts_view:
  "map_option view (run (sched_src_eof @ sched_two_timeouts) NewReader) =
     Some ([Read_ret 1 0 [] (Some ErrNoData), Read_ret 1 0 [] (Some ErrNoData)],
           C_idle, P_done, Slice Buf1 0, 0, [], [Slice Buf3 bufcap], Some (SrcError ''EOF''))"
  unfolding sched_src_eof_def sched_two_timeouts_def
  by (simp add: view_def NewReader_def step_defs bufcap_def)

lemma sched_late_error_view:
  "map_option view (run sched_late_error NewReader) =
     Some ([Read_ret 1 0 [] (Some ErrNoData), Read_ret 1 0 [] (Some ErrNoData),
            Read_ret 1 0 [] (Some (SrcError ''EOF'')), Read_ret 5 0 [] (Some (SrcError ''EOF''))],
           C_idle, P_done, NilSlice, 0, [], [Slice Buf3 bufcap, Slice Buf1 0],
           Some (SrcError ''EOF''))"
  unfolding sched_late_error_def sched_src_eof_def sched_after_eof_def sched_two_timeouts_def
  by (simp add: view_def NewReader_def step_defs bufcap_def)

lemma sched_again_view:
  "map_option view (run (sched_late_error @ sched_again) NewReader) =
     Some ([Read_ret 1 0 [] (Some ErrNoData), Read_ret 1 0 [] (Some ErrNoData),
            Read_ret 1 0 [] (Some (SrcError ''EOF'')), Read_ret 5 0 [] (Some (SrcError ''EOF'')),
            Read_ret 7 0 [] (Some (SrcError ''EOF''))],
           C_idle, P_done, NilSlice, 0, [], [Slice Buf3 bufcap, Slice Buf1 0],
           Some (SrcError ''EOF''))"
  unfolding sched_late_error_def sched_src_eof_def sched_after_eof_def sched_two_timeouts_def
    sched_again_def
  by (simp add: view_def NewReader_def step_defs bufcap_def)



lemma sched_close_view:
  "map_option view (run sched_close NewReader) =
     Some ([Close_ret (Some (SrcError ''closed''))], C_idle, P_done, Slice Buf1 0, 0, [],
           [Slice Buf3 1], Some (SrcError ''EOF''))"
  unfolding sched_close_def sched_blocked_send_def
  by (simp add: view_def NewReader_def step_defs bufcap_def)

lemma sched_waiting_view:
  "map_option view (run sched_waiting NewReader) =
     Some ([], C_wait, P_read, Slice Buf1 0, 0, [], [Slice Buf3 bufcap], None)"
  unfolding sched_waiting_def
  by (simp add: view_def NewReader_def step_defs bufcap_def)

lemma run_Some_view: "map_option view (run es s) = Some v \<Longrightarrow> \<exists>s'. run es s = Some s' \<and> view s' = v"
  by auto

section \<open>The claims\<close>

subsection \<open>C1: a timeout leaves the reader as it was\<close>



subsection \<open>C2: the sticky error\<close>

text \<open>
  The claim as written fails. In \<open>sched_src_eof @ sched_two_timeouts\<close> the source has
  returned its error and there is no byte left to hand over; still the \<open>Read\<close> that
  follows returns \<open>ErrNoData\<close>, the goroutine not having recorded the error yet, and so
  does the next one, after the error is recorded and the queue closed, when the \<open>select\<close>
  of line 92 takes the timer.
\<close>

theorem C2_timeout_after_error_counterexample:
  "map_option view (run (sched_src_eof @ sched_two_timeouts) NewReader) =
     Some ([Read_ret 1 0 [] (Some ErrNoData), Read_ret 1 0 [] (Some ErrNoData)],
           C_idle, P_done, Slice Buf1 0, 0, [], [Slice Buf3 bufcap], Some (SrcError ''EOF''))"
  by (rule sched_two_timeouts_view)

text \<open>
  C2, as the code has it. Once the source has returned its error and all buffered bytes
  have been handed over (\<open>drained\<close>), every \<open>Read\<close> that returns hands back no bytes and
  either \<open>ErrNoData\<close> or the very error the source returned last; and once a \<open>Read\<close> has
  seen the closed queue (\<open>r.buf\<close> is \<open>nil\<close>), \<open>r.buf\<close> stays \<open>nil\<close> and every \<open>Read\<close> that
  returns hands back that error, the same at every call.
\<close>

theorem C2_sticky_error:
  assumes "run es NewReader = Some s" "drained s" "run fs s = Some s'"
  shows "p_err s = last_err None es \<and> p_err s \<noteq> None \<and> p_err s' = p_err s \<and> drained s' \<and>
         (\<exists>h. hist s' = hist s @ h \<and>
              (\<forall>l n d x. Read_ret l n d x \<in> set h \<longrightarrow>
                 n = 0 \<and> d = [] \<and> (x = Some ErrNoData \<or> x = p_err s)) \<and>
              (r_buf s = NilSlice \<longrightarrow>
                 r_buf s' = NilSlice \<and> (\<forall>l n d x. Read_ret l n d x \<in> set h \<longrightarrow> x = p_err s)))"
proof -
  have i: "inv_all s"
    using assms(1) by (rule inv_reach)
  have 1: "p_err s = last_err None es"
    using p_err_run [OF assms(1)] by (simp add: NewReader_def)
  have 2: "p_err s \<noteq> None"
    using i assms(2) by (auto simp: inv_all_def inv_prod_def drained_def)
  obtain h where h: "hist s' = hist s @ h" "\<forall>r \<in> set h. soft_ret (p_err s) r"
    and 3: "drained s'" "p_err s' = p_err s"
    using drained_run [OF i assms(2,3)] by blast
  have 4: "\<forall>l n d x. Read_ret l n d x \<in> set h \<longrightarrow>
                 n = 0 \<and> d = [] \<and> (x = Some ErrNoData \<or> x = p_err s)"
    using h(2) by (auto simp: soft_ret_def)
  have 5: "r_buf s' = NilSlice \<and> (\<forall>l n d x. Read_ret l n d x \<in> set h \<longrightarrow> x = p_err s)"
    if n: "r_buf s = NilSlice"
  proof -
    obtain g where g: "hist s' = hist s @ g" "\<forall>r \<in> set g. sticky_ret (p_err s) r"
      and r: "r_buf s' = NilSlice"
      using nil_run [OF i n assms(3)] by blast
    have "g = h"
      using g(1) h(1) by simp
    then show ?thesis
      using g(2) r by (auto simp: sticky_ret_def)
  qed
  show ?thesis
    using 1 2 3 4 5 h(1) by blast
qed

theorem C2_sticky_error_witness:
  "\<exists>s s'. run sched_src_eof NewReader = Some s \<and> drained s \<and> run sched_after_eof s = Some s' \<and>
          p_err s = last_err None sched_src_eof \<and> p_err s = Some (SrcError ''EOF'') \<and>
          drained s' \<and>
          hist s' = hist s @ [Read_ret 1 0 [] (Some ErrNoData), Read_ret 1 0 [] (Some ErrNoData),
                              Read_ret 1 0 [] (Some (SrcError ''EOF'')),
                              Read_ret 5 0 [] (Some (SrcError ''EOF''))]"
proof -
  obtain s where s: "run sched_src_eof NewReader = Some s"
    and v: "view s = ([], C_idle, P_err, Slice Buf1 0, 0, [], [Slice Buf3 bufcap],
                      Some (SrcError ''EOF''))"
    using run_Some_view [OF sched_src_eof_view] by blast
  obtain s' where s': "run sched_after_eof s = Some s'"
    and v': "view s' =
      ([Read_ret 1 0 [] (Some ErrNoData), Read_ret 1 0 [] (Some ErrNoData),
        Read_ret 1 0 [] (Some (SrcError ''EOF'')), Read_ret 5 0 [] (Some (SrcError ''EOF''))],
       C_idle, P_done, NilSlice, 0, [], [Slice Buf3 bufcap, Slice Buf1 0],
       Some (SrcError ''EOF''))"
    using run_Some_view [OF sched_late_error_view] s
    by (auto simp: sched_late_error_def run_append)
  have d: "drained s"
    using v by (simp add: view_def drained_def)
  have e: "p_err s = Some (SrcError ''EOF'')" "hist s = []"
    using v by (simp_all add: view_def)
  have h: "hist s' = hist s @ [Read_ret 1 0 [] (Some ErrNoData), Read_ret 1 0 [] (Some ErrNoData),
                              Read_ret 1 0 [] (Some (SrcError ''EOF'')),
                              Read_ret 5 0 [] (Some (SrcError ''EOF''))]"
    using v' e(2) by (simp add: view_def)
  show ?thesis
    using C2_sticky_error [OF s d s'] s s' d e(1) h by blast
qed

subsection \<open>C3: data comes before the error\<close>



subsection \<open>C4: a count or an error\<close>




subsection \<open>C5: the poll of the copy loop\<close>

text \<open>
  C5 fails on the code. Line 120 compares the running total \<open>n\<close> with the length of what
  is left of \<open>p\<close> after line 124 has cut it. In \<open>sched_short_return\<close> the first copy leaves
  \<open>n = 1\<close> and \<open>len(p) = 2\<close>; the poll takes the second slice; the second copy makes
  \<open>n = 2\<close>, the test \<open>2 >= 2\<close> holds and line 122 returns \<open>(2, nil)\<close>: one byte of \<open>p\<close> is
  free, \<open>r.buf\<close> is exhausted (\<open>r.i = 1 = len(r.buf)\<close>) and the third slice waits in
  \<open>r.next\<close>, which was not polled.
\<close>

theorem C5_returns_without_polling:
  "map_option view (run sched_short_return NewReader) =
     Some ([Read_ret 3 2 [1, 2] None], C_idle, P_recv, Slice Buf3 1, 1, [Slice Buf1 1],
           [Slice Buf2 1], None)"
  unfolding sched_short_return_def
  by (simp add: view_def NewReader_def step_defs bufcap_def)

subsection \<open>C6: \<open>Close\<close> ends the goroutine\<close>



subsection \<open>C7: what \<open>Close\<close> returns\<close>

text \<open>
  C7. \<open>Close\<close> calls the source's \<open>Close\<close> first: when the call has been made the source is
  closed, its error is kept, and the queues are untouched; the draining statements run
  only with the source closed. The errors \<open>Close\<close> has returned, followed by the one a
  running \<open>Close\<close> holds, are the errors the source's \<open>Close\<close> returned, call by call, \<open>nil\<close>
  included: \<open>Close\<close> returns no other error.
\<close>

theorem C7_close_returns_source_error:
  assumes "run es NewReader = Some s"
  shows "closes s = close_calls es \<and>
         (c_pc s = K_range \<or> c_pc s = K_push \<longrightarrow> src_closed s) \<and>
         (\<forall>e s'. step (CallClose e) s = Some s' \<longrightarrow>
            c_pc s' = K_range \<and> src_closed s' \<and> k_err s' = e \<and>
            next_q s' = next_q s \<and> pool_q s' = pool_q s \<and> hist s' = hist s)"
proof -
  have 1: "closes s = close_calls es"
    using closes_run [OF assms] by (simp add: closes_def close_pending_def NewReader_def)
  have 2: "c_pc s = K_range \<or> c_pc s = K_push \<longrightarrow> src_closed s"
    using inv_reach [OF assms] by (simp add: inv_all_def inv_cons_def)
  have 3: "\<forall>e s'. step (CallClose e) s = Some s' \<longrightarrow>
            c_pc s' = K_range \<and> src_closed s' \<and> k_err s' = e \<and>
            next_q s' = next_q s \<and> pool_q s' = pool_q s \<and> hist s' = hist s"
    by (clarsimp simp: call_close_def split: if_splits)
  show ?thesis
    using 1 2 3 by blast
qed

theorem C7_close_returns_source_error_witness:
  "\<exists>s. run sched_close NewReader = Some s \<and> hist s = [Close_ret (Some (SrcError ''closed''))] \<and>
       closes s = [Some (SrcError ''closed'')] \<and> close_calls sched_close = [Some (SrcError ''closed'')]"
proof -
  obtain s where s: "run sched_close NewReader = Some s"
    and v: "view s = ([Close_ret (Some (SrcError ''closed''))], C_idle, P_done, Slice Buf1 0, 0, [],
           [Slice Buf3 1], Some (SrcError ''EOF''))"
    using run_Some_view [OF sched_close_view] by blast
  have h: "hist s = [Close_ret (Some (SrcError ''closed''))]"
    using v by (simp add: view_def)
  have c: "close_calls sched_close = [Some (SrcError ''closed'')]"
    by (simp add: sched_close_def sched_blocked_send_def)
  show ?thesis
    using C7_close_returns_source_error [OF s] s h c by auto
qed

subsection \<open>C8: three buffers, one role each\<close>

text \<open>
  C8. There are three arrays, each of 2048 bytes at every moment; and at every moment
  each array is in exactly one of the four roles: held by the goroutine (being filled),
  queued in \<open>r.next\<close>, held by the user's thread (as \<open>r.buf\<close>, or just received and about to
  replace it), queued in \<open>r.pool\<close>.
\<close>

theorem C8_three_buffers_one_role_each:
  assumes "run es NewReader = Some s"
  shows "bufcap = 2048 \<and> (\<forall>b. b = Buf1 \<or> b = Buf2 \<or> b = Buf3) \<and>
         (\<forall>b. length (mem s b) = bufcap) \<and>
         (\<forall>b. count (held (filling s)) b + count (held (in_transit s)) b
               + count (held (at_consumer s)) b + count (held (idle_pool s)) b = 1)"
proof -
  have i: "inv_all s"
    using assms by (rule inv_reach)
  have 1: "\<forall>b. length (mem s b) = bufcap"
    using i by (simp add: inv_all_def inv_cons_def)
  have "owned s = {#Buf1, Buf2, Buf3#}"
    using i by (simp add: inv_all_def)
  then have "\<forall>b. count (owned s) b = 1"
    by (simp only: count_three simp_thms)
  then have 2: "\<forall>b. count (held (filling s)) b + count (held (in_transit s)) b
               + count (held (at_consumer s)) b + count (held (idle_pool s)) b = 1"
    by (simp add: owned_def)
  have 3: "\<forall>b. b = Buf1 \<or> b = Buf2 \<or> b = Buf3"
    using bufid.exhaust by blast
  show ?thesis
    using 1 2 3 by (simp add: bufcap_def)
qed

theorem C8_three_buffers_one_role_each_witness:
  "\<exists>s. run sched_two_slices NewReader = Some s \<and> length (mem s Buf1) = bufcap \<and>
       count (held (filling s)) Buf1 + count (held (in_transit s)) Buf1
         + count (held (at_consumer s)) Buf1 + count (held (idle_pool s)) Buf1 = 1"
proof -
  obtain s where s: "run sched_two_slices NewReader = Some s"
    using run_Some_view [OF sched_two_slices_view] by blast
  show ?thesis
    using C8_three_buffers_one_role_each [OF s] s by blast
qed

subsection \<open>C9: the wait loop receives once\<close>

text \<open>
  C9. The goroutine sends only when \<open>n\<close> is positive, so every slice queued in \<open>r.next\<close>
  is non-empty; \<open>r.buf\<close> is \<open>nil\<close> only after the queue was closed; and the wait loop
  receives at most once per call: after its receive the loop test fails and control
  reaches line 103.
\<close>

theorem C9_wait_loop_adopts_once:
  assumes "run es NewReader = Some s"
  shows "(p_pc s = P_send \<longrightarrow> 0 < p_n s) \<and>
         (\<forall>b \<in> set (next_q s). b \<noteq> NilSlice \<and> 0 < len b) \<and>
         (r_buf s = NilSlice \<longrightarrow> next_closed s) \<and>
         c_adopted s \<le> 1 \<and>
         (c_pc s = C_recycle1 \<longrightarrow> (\<exists>s'. step Consumer s = Some s' \<and> c_pc s' = C_stop))"
proof -
  have i: "inv_all s"
    using assms by (rule inv_reach)
  have 1: "p_pc s = P_send \<longrightarrow> 0 < p_n s"
    using i by (simp add: inv_all_def inv_prod_def)
  have "\<forall>b \<in> set (next_q s). 0 < len b"
    using i by (simp add: inv_all_def inv_cons_def)
  then have 2: "\<forall>b \<in> set (next_q s). b \<noteq> NilSlice \<and> 0 < len b"
    using len_pos_not_Nil by blast
  have 3: "(r_buf s = NilSlice \<longrightarrow> next_closed s) \<and> c_adopted s \<le> 1"
    using i by (simp add: inv_all_def inv_cons_def)
  have 4: "c_pc s = C_recycle1 \<longrightarrow> (\<exists>s'. step Consumer s = Some s' \<and> c_pc s' = C_stop)"
    using recycle_enabled [OF i] by auto
  show ?thesis
    using 1 2 3 4 by blast
qed

theorem C9_wait_loop_adopts_once_witness:
  "\<exists>s s'. run sched_adopt NewReader = Some s \<and> c_pc s = C_recycle1 \<and> c_adopted s \<le> 1 \<and>
          step Consumer s = Some s' \<and> c_pc s' = C_stop"
proof -
  obtain s where s: "run sched_adopt NewReader = Some s" and pc: "c_pc s = C_recycle1"
    using run_Some_view [OF sched_adopt_view] by (auto simp: view_def)
  show ?thesis
    using C9_wait_loop_adopts_once [OF s] s pc by blast
qed

subsection \<open>C10: no waiting after the closed queue was seen\<close>

text \<open>
  C10. Once \<open>r.buf\<close> is \<open>nil\<close> it stays \<open>nil\<close>; a \<open>Read\<close> goes from its call straight to line
  103 and is never at the \<open>select\<close> of the wait loop, whose timer case cannot be taken;
  every statement it is at can execute at once; and what it returns is the sticky error
  with no bytes.
\<close>

theorem C10_no_wait_after_close:
  assumes "run es NewReader = Some s" "r_buf s = NilSlice" "run fs s = Some s'"
  shows "r_buf s' = NilSlice \<and> c_pc s' \<noteq> C_wait \<and> step SelTimer s' = None \<and>
         (c_pc s' = C_idle \<longrightarrow> (\<forall>l. \<exists>t. step (CallRead l) s' = Some t \<and> c_pc t = C_stop)) \<and>
         (c_pc s' \<noteq> C_idle \<longrightarrow> step Consumer s' \<noteq> None) \<and>
         (\<exists>h. hist s' = hist s @ h \<and> (\<forall>r \<in> set h. sticky_ret (p_err s) r))"
proof -
  have i: "inv_all s"
    using assms(1) by (rule inv_reach)
  have i': "inv_all s'"
    using inv_run [OF i assms(3)] .
  have n: "r_buf s' = NilSlice"
    and h: "\<exists>h. hist s' = hist s @ h \<and> (\<forall>r \<in> set h. sticky_ret (p_err s) r)"
    using nil_run [OF i assms(2,3)] by simp_all
  note p = nil_pcs [OF i' n]
  have t: "inv_timer s'" and q: "inv_prod s'"
    using i' by (simp_all add: inv_all_def)
  have 1: "c_pc s' \<noteq> C_wait"
    using p(1) by auto
  then have 2: "step SelTimer s' = None"
    by (simp add: sel_timer_def)
  have 3: "c_pc s' = C_idle \<longrightarrow> (\<forall>l. \<exists>t. step (CallRead l) s' = Some t \<and> c_pc t = C_stop)"
    using n by (simp add: call_read_def wait_or_stop_def Let_def)
  have 4: "step Consumer s' \<noteq> None" if ni: "c_pc s' \<noteq> C_idle"
  proof -
    consider "c_pc s' = C_stop" | "c_pc s' = C_drain" | "c_pc s' = C_errrecv"
      | "c_pc s' = C_errsend" | "c_pc s' = K_range"
      using p(1) ni by blast
    then show ?thesis
    proof cases
      case 1
      then show ?thesis by (simp add: read_step_def)
    next
      case 2
      then show ?thesis using t by (simp add: read_step_def inv_timer_def)
    next
      case 3
      then show ?thesis using q p(2) by (simp add: read_step_def inv_prod_def)
    next
      case 4
      then show ?thesis using q p(2) by (simp add: read_step_def inv_prod_def)
    next
      case 5
      then show ?thesis using p(3,4) by (simp add: close_step_def)
    qed
  qed
  show ?thesis
    using n 1 2 3 4 h by blast
qed

text \<open>
  After \<open>sched_late_error\<close> the closed queue has been seen. In \<open>sched_again\<close> the timer
  fires during the call, which returns the error all the same.
\<close>

theorem C10_no_wait_after_close_witness:
  "\<exists>s s' t. run sched_late_error NewReader = Some s \<and> r_buf s = NilSlice \<and>
          run sched_again s = Some s' \<and>
          r_buf s' = NilSlice \<and> c_pc s' = C_idle \<and> step SelTimer s' = None \<and>
          step (CallRead 3) s' = Some t \<and> c_pc t = C_stop \<and>
          map_option hist (run (sched_late_error @ sched_again) NewReader) =
            Some [Read_ret 1 0 [] (Some ErrNoData), Read_ret 1 0 [] (Some ErrNoData),
                  Read_ret 1 0 [] (Some (SrcError ''EOF'')), Read_ret 5 0 [] (Some (SrcError ''EOF'')),
                  Read_ret 7 0 [] (Some (SrcError ''EOF''))]"
proof -
  obtain s where s: "run sched_late_error NewReader = Some s"
    and v: "view s =
      ([Read_ret 1 0 [] (Some ErrNoData), Read_ret 1 0 [] (Some ErrNoData),
        Read_ret 1 0 [] (Some (SrcError ''EOF'')), Read_ret 5 0 [] (Some (SrcError ''EOF''))],
       C_idle, P_done, NilSlice, 0, [], [Slice Buf3 bufcap, Slice Buf1 0],
       Some (SrcError ''EOF''))"
    using run_Some_view [OF sched_late_error_view] by blast
  obtain s' where s': "run sched_again s = Some s'"
    and v': "view s' =
      ([Read_ret 1 0 [] (Some ErrNoData), Read_ret 1 0 [] (Some ErrNoData),
        Read_ret 1 0 [] (Some (SrcError ''EOF'')), Read_ret 5 0 [] (Some (SrcError ''EOF'')),
        Read_ret 7 0 [] (Some (SrcError ''EOF''))],
       C_idle, P_done, NilSlice, 0, [], [Slice Buf3 bufcap, Slice Buf1 0],
       Some (SrcError ''EOF''))"
    using run_Some_view [OF sched_again_view] s by (auto simp: run_append)
  have n: "r_buf s = NilSlice" and c: "c_pc s' = C_idle"
    using v v' by (simp_all add: view_def)
  have h: "map_option hist (run (sched_late_error @ sched_again) NewReader) =
            Some [Read_ret 1 0 [] (Some ErrNoData), Read_ret 1 0 [] (Some ErrNoData),
                  Read_ret 1 0 [] (Some (SrcError ''EOF'')), Read_ret 5 0 [] (Some (SrcError ''EOF'')),
                  Read_ret 7 0 [] (Some (SrcError ''EOF''))]"
    using run_Some_view [OF sched_again_view] by (auto simp: view_def)
  show ?thesis
    using C10_no_wait_after_close [OF s n s'] s s' n c h by blast
qed

section \<open>Further properties of \<open>Read\<close>\<close>

text \<open>
  \<open>Read\<close> blocks nowhere but in the \<open>select\<close> of its wait loop, and there the timer is
  running or has fired: every other statement of \<open>Read\<close>, the sends to \<open>r.pool\<close> and the
  exchanges with \<open>r.err\<close> included, can execute at once.
\<close>

theorem read_blocks_only_in_wait:
  assumes "run es NewReader = Some s"
  shows "(c_pc s = C_recycle1 \<or> c_pc s = C_stop \<or> c_pc s = C_drain \<or> c_pc s = C_errrecv \<or>
          c_pc s = C_errsend \<or> c_pc s = C_copy \<or> c_pc s = C_poll \<or> c_pc s = C_recycle2
            \<longrightarrow> step Consumer s \<noteq> None) \<and>
         (c_pc s = C_wait \<longrightarrow> step TimerFire s \<noteq> None \<or> step SelTimer s \<noteq> None)"
proof -
  have i: "inv_all s"
    using assms by (rule inv_reach)
  have t: "inv_timer s" and q: "inv_prod s" and c: "inv_cons s"
    using i by (simp_all add: inv_all_def)
  have 1: "step Consumer s \<noteq> None" if "c_pc s = C_recycle1"
    using recycle_enabled [OF i] that by auto
  have 2: "step Consumer s \<noteq> None" if "c_pc s = C_stop"
    using that by (simp add: read_step_def)
  have 3: "step Consumer s \<noteq> None" if "c_pc s = C_drain"
    using that t by (simp add: read_step_def inv_timer_def)
  have 4: "step Consumer s \<noteq> None" if a: "c_pc s = C_errrecv"
  proof -
    have "r_buf s = NilSlice"
      using c a by (simp add: inv_cons_def)
    then have "p_pc s = P_done"
      using nil_pcs(2) [OF i] by simp
    then show ?thesis
      using q a by (simp add: read_step_def inv_prod_def)
  qed
  have 5: "step Consumer s \<noteq> None" if a: "c_pc s = C_errsend"
  proof -
    have "err_q s = []"
      using q a by (cases "p_pc s = P_close \<or> p_pc s = P_done") (simp_all add: inv_prod_def)
    then show ?thesis
      using a by (simp add: read_step_def)
  qed
  have 6: "step Consumer s \<noteq> None" if "c_pc s = C_copy \<or> c_pc s = C_poll \<or> c_pc s = C_recycle2"
    using copy_loop_enabled [OF i that] .
  have 7: "step TimerFire s \<noteq> None \<or> step SelTimer s \<noteq> None" if "c_pc s = C_wait"
    using that t by (auto simp: inv_timer_def timer_fire_def sel_timer_def)
  show ?thesis
    using 1 2 3 4 5 6 7 by blast
qed

theorem read_blocks_only_in_wait_witness:
  "\<exists>s. run sched_waiting NewReader = Some s \<and> c_pc s = C_wait \<and>
       (step TimerFire s \<noteq> None \<or> step SelTimer s \<noteq> None)"
proof -
  obtain s where s: "run sched_waiting NewReader = Some s" and pc: "c_pc s = C_wait"
    using run_Some_view [OF sched_waiting_view] by (auto simp: view_def)
  show ?thesis
    using read_blocks_only_in_wait [OF s] s pc by blast
qed

text \<open>
  No panic: \<open>r.i\<close> never passes the end of \<open>r.buf\<close>, so the slice expression of line 116
  is in bounds, and the goroutine never sends on or closes a closed channel.
\<close>

theorem no_panic:
  assumes "run es NewReader = Some s"
  shows "c_pc s \<noteq> C_panic \<and> p_pc s \<noteq> P_panic \<and> r_i s \<le> len (r_buf s)"
  using inv_reach [OF assms] by (simp add: inv_all_def inv_cons_def inv_prod_def)

theorem no_panic_witness:
  "\<exists>s. run sched_two_slices NewReader = Some s \<and> c_pc s \<noteq> C_panic \<and> p_pc s \<noteq> P_panic \<and>
       r_i s \<le> len (r_buf s)"
proof -
  obtain s where s: "run sched_two_slices NewReader = Some s"
    using run_Some_view [OF sched_two_slices_view] by blast
  show ?thesis
    using no_panic [OF s] s by blast
qed

text \<open>
  Between calls the timer is at rest: stopped, with an empty channel, as \<open>Reset\<close> wants it.
\<close>

theorem timer_at_rest_between_calls:
  assumes "run es NewReader = Some s" "c_pc s = C_idle"
  shows "\<not> timer_armed s \<and> \<not> timer_c s"
  using inv_reach [OF assms(1)] assms(2) by (simp add: inv_all_def inv_timer_def)

theorem timer_at_rest_between_calls_witness:
  "\<exists>s. run sched_recover NewReader = Some s \<and> c_pc s = C_idle \<and> \<not> timer_armed s \<and> \<not> timer_c s"
proof -
  obtain s where s: "run sched_recover NewReader = Some s" and pc: "c_pc s = C_idle"
    using run_Some_view [OF sched_recover_view] by (auto simp: view_def)
  show ?thesis
    using timer_at_rest_between_calls [OF s pc] s pc by blast
qed

end
